theory Spec2Isabelle
  imports Main "HOL-Library.Word" "HOL-Library.Multiset"
begin

section \<open>Machine integers, sequences and text\<close>

type_synonym u8 = "8 word"
type_synonym u16 = "16 word"
type_synonym u64 = "64 word"

text \<open>The alphabet of \<^verbatim>\<open>dna4_traits\<close>; a query record is the pair of the fields
  \<^verbatim>\<open>seqan3::field::id\<close> and \<^verbatim>\<open>seqan3::field::seq\<close>.\<close>

datatype dna4 = A | C | G | T

type_synonym record_type = "string \<times> dna4 list"

definition tab :: char where
  "tab = CHR 0x09"

definition newline :: char where
  "newline = CHR 0x0A"

definition comma :: char where
  "comma = CHR '',''"

definition digit_char :: "nat \<Rightarrow> char" where
  "digit_char d = ''0123456789'' ! d"

text \<open>\<^verbatim>\<open>std::to_string\<close> on an unsigned value: its decimal digits, most significant first.\<close>

fun to_string :: "nat \<Rightarrow> string" where
  "to_string n =
     (if n < 10 then [digit_char n] else to_string (n div 10) @ [digit_char (n mod 10)])"

declare to_string.simps [simp del]

section \<open>The interleaved Bloom filter\<close>

text \<open>
  Modelled from the spec: the class \<^verbatim>\<open>seqan::hibf::interleaved_bloom_filter\<close>, its
  \<^verbatim>\<open>counting_agent\<close> and \<^verbatim>\<open>counting_vector\<close> are used by the search and build code but
  are not part of the embedded sources. The definitions of this section follow the
  specification's description of the IBF core: a filter is the tuple \<open>(B, N, H, M)\<close> of the
  bin count (rounded up to a multiple of 64), the number of rows per hash function, the
  number of hash functions and the bit matrix of \<open>N * B\<close> bits, in which the \<open>B\<close> bits of
  one row are contiguous. The family of row hash functions \<^verbatim>\<open>redistribute_i\<close> is fixed by
  the library but not given; it is the parameter \<open>rd\<close> of every operation.
\<close>

record interleaved_bloom_filter =
  bin_count :: nat
  bin_size :: nat
  hash_function_count :: nat
  bits :: "bool list"

type_synonym row_hash = "nat \<Rightarrow> u64 \<Rightarrow> nat"

definition round_up_64 :: "nat \<Rightarrow> nat" where
  "round_up_64 b = ((b + 63) div 64) * 64"

text \<open>Modelled from the spec: \<^verbatim>\<open>new(B_request, H, N)\<close> rounds the bin count up to a
  multiple of 64 and allocates the bit matrix zeroed.\<close>

definition ibf_new :: "nat \<Rightarrow> nat \<Rightarrow> nat \<Rightarrow> interleaved_bloom_filter" where
  "ibf_new b_request h n =
     \<lparr>bin_count = round_up_64 b_request, bin_size = n, hash_function_count = h,
      bits = replicate (n * round_up_64 b_request) False\<rparr>"

definition bit_offset :: "row_hash \<Rightarrow> interleaved_bloom_filter \<Rightarrow> nat \<Rightarrow> u64 \<Rightarrow> nat \<Rightarrow> nat" where
  "bit_offset rd ibf i h b = (rd i h mod bin_size ibf) * bin_count ibf + b"

text \<open>Modelled from the spec: \<^verbatim>\<open>insert(hash h, bin b)\<close>: for each \<open>i\<close> in \<open>[0, H)\<close>, the row
  is \<^verbatim>\<open>redistribute_i(h) mod N\<close> and the bit at offset \<^verbatim>\<open>row * B + b\<close> is set.\<close>

definition emplace :: "row_hash \<Rightarrow> u64 \<Rightarrow> nat \<Rightarrow> interleaved_bloom_filter \<Rightarrow> interleaved_bloom_filter" where
  "emplace rd h b ibf =
     ibf\<lparr>bits := fold (\<lambda>i m. m[bit_offset rd ibf i h b := True])
                       [0..<hash_function_count ibf] (bits ibf)\<rparr>"

text \<open>The stripe of \<open>B\<close> bits of one row.\<close>

definition stripe :: "interleaved_bloom_filter \<Rightarrow> nat \<Rightarrow> bool list" where
  "stripe ibf row = take (bin_count ibf) (drop (row * bin_count ibf) (bits ibf))"

text \<open>The bit vector "which bins may contain this hash": the AND of the \<open>H\<close> stripes.\<close>

definition bulk_contains :: "row_hash \<Rightarrow> interleaved_bloom_filter \<Rightarrow> u64 \<Rightarrow> bool list" where
  "bulk_contains rd ibf h =
     fold (\<lambda>i acc. map2 (\<and>) acc (stripe ibf (rd i h mod bin_size ibf)))
          [0..<hash_function_count ibf] (replicate (bin_count ibf) True)"

text \<open>Saturating increment at \<^verbatim>\<open>u16::MAX\<close>.\<close>

definition sat_inc :: "u16 \<Rightarrow> u16" where
  "sat_inc c = (if c = 0xFFFF then c else c + 1)"

text \<open>Modelled from the spec: \<^verbatim>\<open>counting_agent.bulk_count(hashes)\<close>: the counts are
  zero-initialised; for each hash the stripes are combined and 1 is added to the count of
  every bin whose bit is set, saturating.\<close>

definition bulk_count :: "row_hash \<Rightarrow> interleaved_bloom_filter \<Rightarrow> u64 list \<Rightarrow> u16 list" where
  "bulk_count rd ibf hashes =
     fold (\<lambda>h counts. map2 (\<lambda>c bit. if bit then sat_inc c else c) counts (bulk_contains rd ibf h))
          hashes (replicate (bin_count ibf) 0)"

text \<open>\<^verbatim>\<open>counting_vector::operator+=\<close>: the element-wise sum of two vectors of \<^verbatim>\<open>uint16_t\<close>
  (unsigned addition, modulo \<open>2 ^ 16\<close>).\<close>

definition counting_vector_add :: "u16 list \<Rightarrow> u16 list \<Rightarrow> u16 list" where
  "counting_vector_add xs ys = map2 (+) xs ys"

section \<open>Emitting one result line\<close>

text \<open>
  The loop shared by \<^verbatim>\<open>search_singular_ibf::worker\<close> and \<^verbatim>\<open>output_task\<close>:
  \<^verbatim>\<open>for (auto && count : result) { if (count >= threshold) { result_string +=
  std::to_string(current_bin); result_string += ','; } ++current_bin; }\<close>
  The arguments are the remaining counts, the threshold, \<^verbatim>\<open>current_bin\<close> and
  \<^verbatim>\<open>result_string\<close>.
\<close>

fun append_hits :: "u16 list \<Rightarrow> nat \<Rightarrow> nat \<Rightarrow> string \<Rightarrow> string" where
  "append_hits [] threshold current_bin result_string = result_string"
| "append_hits (cnt # result) threshold current_bin result_string =
     append_hits result threshold (Suc current_bin)
       (if unat cnt \<ge> threshold
        then result_string @ to_string current_bin @ [comma]
        else result_string)"

text \<open>The other branch of \<^verbatim>\<open>if constexpr (is_ibf)\<close>: every element of the result of
  \<^verbatim>\<open>membership_for\<close> (user bin ids) is appended.\<close>

fun append_ids :: "nat list \<Rightarrow> string \<Rightarrow> string" where
  "append_ids [] result_string = result_string"
| "append_ids (cnt # result) result_string =
     append_ids result (result_string @ to_string cnt @ [comma])"

text \<open>
  \<^verbatim>\<open>if (auto & last_char = result_string.back(); last_char == ',') last_char = '\n';
  else result_string += '\n';\<close>
  The string is never empty here: it holds at least the tab that follows the id. On the
  empty string \<^verbatim>\<open>back()\<close> is undefined; the model appends the newline.
\<close>

definition finish_line :: "string \<Rightarrow> string" where
  "finish_line result_string =
     (if result_string \<noteq> [] \<and> last result_string = comma
      then butlast result_string @ [newline]
      else result_string @ [newline])"

section \<open>The query engine\<close>

text \<open>
  The collaborators of the search that are not part of the embedded sources are fields of
  the arguments: \<open>hash_adaptor\<close> is \<^verbatim>\<open>seqan3::views::minimiser_hash\<close> for the shape, window
  size and seed of the run (the minimiser stream of a sequence), \<open>thresholder_get\<close> is
  \<^verbatim>\<open>raptor::threshold::threshold::get\<close>, \<open>cfg_hash_partition\<close> is
  \<^verbatim>\<open>partition_config::hash_partition\<close> and \<open>load_index\<close> is the content of the index file
  of each partition (\<^verbatim>\<open>load_index(index, arguments, part)\<close>), which may fail.
\<close>

datatype error = Load_Error | Future_Error | Assertion_Failed

record search_arguments =
  hash_adaptor :: "dna4 list \<Rightarrow> u64 list"
  thresholder_get :: "nat \<Rightarrow> nat"
  parts :: nat
  cfg_hash_partition :: "u64 \<Rightarrow> nat"
  load_index :: "nat \<Rightarrow> error + interleaved_bloom_filter"

text \<open>The template parameter \<^verbatim>\<open>index_t\<close>: a flat IBF, or an HIBF, which is used through its
  hash function count and \<^verbatim>\<open>membership_agent().membership_for(minimiser, threshold)\<close>.\<close>

datatype index_t =
  Ibf interleaved_bloom_filter
| Hibf nat "u64 list \<Rightarrow> nat \<Rightarrow> nat list"

text \<open>What \<^verbatim>\<open>sync_out\<close> has received: \<open>Header n\<close> is the text of
  \<^verbatim>\<open>write_header(arguments, n)\<close>, \<open>Result s\<close> the string of one \<^verbatim>\<open>write(s)\<close>.\<close>

datatype written = Header nat | Result string

text \<open>\<^verbatim>\<open>search_singular_ibf::worker\<close> for one \<^verbatim>\<open>record_id\<close>. Its agent, its
  \<^verbatim>\<open>result_string\<close> and its \<^verbatim>\<open>minimiser\<close> vector are local to the call.\<close>

definition worker ::
  "row_hash \<Rightarrow> search_arguments \<Rightarrow> index_t \<Rightarrow> record_type list \<Rightarrow> nat \<Rightarrow> written list \<Rightarrow> written list" where
  "worker rd arguments index records record_id synced_out =
     (let (rid, seq) = records ! record_id;
          result_string = rid @ [tab];
          minimiser = hash_adaptor arguments seq;
          minimiser_count = length minimiser;
          threshold = thresholder_get arguments minimiser_count;
          result_string =
            (case index of
               Ibf ibf \<Rightarrow> append_hits (bulk_count rd ibf minimiser) threshold 0 result_string
             | Hibf hfc membership_for \<Rightarrow>
                 append_ids (membership_for minimiser threshold) result_string)
      in synced_out @ [Result (finish_line result_string)])"

text \<open>
  Modelled from the spec: \<^verbatim>\<open>do_parallel(worker, records.size(), threads)\<close> is not part of
  the embedded sources. It processes the records in parallel, each record id once, with no
  ordering across records and atomic output lines: the model runs the worker once for each
  element of \<open>order\<close>, the order in which the threads happen to take the record ids. An
  order is a schedule of \<open>n\<close> iterations when it holds every index below \<open>n\<close> once.
\<close>

definition schedule :: "nat \<Rightarrow> nat list \<Rightarrow> bool" where
  "schedule n order = (mset order = mset [0..<n])"

definition do_parallel :: "nat list \<Rightarrow> (nat \<Rightarrow> 's \<Rightarrow> 's) \<Rightarrow> 's \<Rightarrow> 's" where
  "do_parallel order work st = fold work order st"

text \<open>\<^verbatim>\<open>fin | seqan::stl::views::chunk((1ULL << 20) * 10)\<close>\<close>

definition chunk_size :: nat where
  "chunk_size = 2 ^ 20 * 10"

function chunk :: "nat \<Rightarrow> 'a list \<Rightarrow> 'a list list" where
  "chunk n xs = (if n = 0 \<or> xs = [] then [] else take n xs # chunk n (drop n xs))"
  by pat_completeness auto
termination
  by (relation "measure (\<lambda>(n, xs). length xs)") auto

declare chunk.simps [simp del]

record search_result =
  header_written :: bool
  synced_out :: "written list"
  failure :: "error option"

definition write_header :: "index_t \<Rightarrow> written" where
  "write_header index = (case index of Ibf ibf \<Rightarrow> Header (hash_function_count ibf)
                         | Hibf hfc membership_for \<Rightarrow> Header hfc)"

text \<open>
  The loop of \<^verbatim>\<open>search_singular_ibf\<close> over the chunks of the query file. \<open>shuffle\<close> is
  \<^verbatim>\<open>std::ranges::shuffle\<close> with the generator \<^verbatim>\<open>std::mt19937_64\<close> of the given seed;
  \<open>sched k n\<close> is the order in which the \<open>n\<close> records of chunk \<open>k\<close> are processed;
  \<open>cereal_future\<close> is the state of the future created before the loop: \<open>Some r\<close> while it
  holds the result \<open>r\<close> of \<^verbatim>\<open>load_index\<close>, \<open>None\<close> once \<^verbatim>\<open>get()\<close> has taken it (a second
  \<^verbatim>\<open>get()\<close> has no state to return: \<^verbatim>\<open>std::future_error\<close>). \<open>hw\<close> is the function-local
  \<^verbatim>\<open>static bool header_written\<close>, which lives as long as the process: it is passed in and
  returned. The index that \<^verbatim>\<open>load_index\<close> filled stays available to the later chunks.
\<close>

fun singular_chunks ::
  "row_hash \<Rightarrow> (nat \<Rightarrow> record_type list \<Rightarrow> record_type list) \<Rightarrow> (nat \<Rightarrow> nat \<Rightarrow> nat list) \<Rightarrow>
   search_arguments \<Rightarrow> nat \<Rightarrow> record_type list list \<Rightarrow> (error + index_t) option \<Rightarrow>
   bool \<Rightarrow> written list \<Rightarrow> search_result" where
  "singular_chunks rd shuffle sched arguments k [] cereal_future hw out =
     \<lparr>header_written = hw, synced_out = out, failure = None\<rparr>"
| "singular_chunks rd shuffle sched arguments k (chunked_records # rest) cereal_future hw out =
     (let records = shuffle 0 chunked_records in
      case cereal_future of
        None \<Rightarrow> \<lparr>header_written = hw, synced_out = out, failure = Some Future_Error\<rparr>
      | Some (Inl e) \<Rightarrow> \<lparr>header_written = hw, synced_out = out, failure = Some e\<rparr>
      | Some (Inr index) \<Rightarrow>
          (let out = (if hw then out else out @ [write_header index]);
               out = do_parallel (sched k (length records))
                       (worker rd arguments index records) out
           in singular_chunks rd shuffle sched arguments (Suc k) rest None True out))"

definition search_singular_ibf ::
  "row_hash \<Rightarrow> (nat \<Rightarrow> record_type list \<Rightarrow> record_type list) \<Rightarrow> (nat \<Rightarrow> nat \<Rightarrow> nat list) \<Rightarrow>
   search_arguments \<Rightarrow> (error + index_t) \<Rightarrow> record_type list \<Rightarrow> bool \<Rightarrow> search_result" where
  "search_singular_ibf rd shuffle sched arguments loaded query_file hw =
     singular_chunks rd shuffle sched arguments 0 (chunk chunk_size query_file)
       (Some loaded) hw []"

section \<open>The partitioned query flow\<close>

text \<open>
  The two lambdas of \<^verbatim>\<open>search_partitioned_ibf\<close> each hold a loop
  \<^verbatim>\<open>#pragma omp parallel for schedule(guided) num_threads(arguments.threads)\<close>
  \<^verbatim>\<open>for (size_t i = 0; i < records.size(); ++i)\<close>. The variables that a lambda declares
  before its loop (\<^verbatim>\<open>counter_id\<close>, \<^verbatim>\<open>minimiser\<close>, \<^verbatim>\<open>result_string\<close>, the agent) are shared
  by the threads of the loop, as are \<^verbatim>\<open>counts\<close> and the output; the variables declared in
  the loop body (\<^verbatim>\<open>minimiser_count\<close>, \<^verbatim>\<open>threshold\<close>, \<^verbatim>\<open>current_bin\<close>, the views) are private
  to the thread. The model takes every statement of the body as one step on the shared
  and private variables, and lets the threads take their steps in any interleaving.
\<close>

record shared =
  s_counts :: "u16 list list"
  s_counter_id :: nat
  s_minimiser :: "u64 list"
  s_result_string :: string
  s_out :: "written list"

record thread_private =
  p_minimiser_count :: nat
  p_threshold :: nat

type_synonym statement = "thread_private \<times> shared \<Rightarrow> thread_private \<times> shared"

text \<open>The statements of iteration \<open>i\<close> of the loop of \<^verbatim>\<open>count_task\<close>:
  \<^verbatim>\<open>minimiser.assign(minimiser_view.begin(), minimiser_view.end())\<close> and
  \<^verbatim>\<open>counts[counter_id++] += counter.bulk_count(filtered)\<close>, where \<^verbatim>\<open>filtered\<close> is a lazy view
  of the shared vector \<^verbatim>\<open>minimiser\<close>.\<close>

definition count_statements ::
  "row_hash \<Rightarrow> search_arguments \<Rightarrow> interleaved_bloom_filter \<Rightarrow> record_type list \<Rightarrow> nat \<Rightarrow>
   nat \<Rightarrow> statement list" where
  "count_statements rd arguments ibf records part i =
     (let (rid, seq) = records ! i in
      [\<lambda>(p, s). (p, s\<lparr>s_minimiser := hash_adaptor arguments seq\<rparr>),
       \<lambda>(p, s). (p, s\<lparr>s_counts := (s_counts s)[s_counter_id s :=
                         counting_vector_add (s_counts s ! s_counter_id s)
                           (bulk_count rd ibf
                              (filter (\<lambda>hash. cfg_hash_partition arguments hash = part)
                                 (s_minimiser s)))],
                      s_counter_id := Suc (s_counter_id s)\<rparr>)])"

text \<open>The statements of iteration \<open>i\<close> of the loop of \<^verbatim>\<open>output_task\<close>, in program order:
  \<^verbatim>\<open>result_string.clear()\<close>; \<^verbatim>\<open>result_string += id\<close>; \<^verbatim>\<open>result_string += '\t'\<close>;
  \<^verbatim>\<open>minimiser.assign(...)\<close>; \<^verbatim>\<open>counts[counter_id] += counter.bulk_count(filtered)\<close>;
  \<^verbatim>\<open>minimiser_count{minimiser.size()}\<close>; \<^verbatim>\<open>threshold = thresholder.get(minimiser_count)\<close>;
  the loop over \<^verbatim>\<open>counts[counter_id++]\<close> that appends the hits; the replacement of the
  last comma; \<^verbatim>\<open>synced_out.write(result_string)\<close>.\<close>

definition output_statements ::
  "row_hash \<Rightarrow> search_arguments \<Rightarrow> interleaved_bloom_filter \<Rightarrow> record_type list \<Rightarrow> nat \<Rightarrow>
   nat \<Rightarrow> statement list" where
  "output_statements rd arguments ibf records part i =
     (let (rid, seq) = records ! i in
      [\<lambda>(p, s). (p, s\<lparr>s_result_string := []\<rparr>),
       \<lambda>(p, s). (p, s\<lparr>s_result_string := s_result_string s @ rid\<rparr>),
       \<lambda>(p, s). (p, s\<lparr>s_result_string := s_result_string s @ [tab]\<rparr>),
       \<lambda>(p, s). (p, s\<lparr>s_minimiser := hash_adaptor arguments seq\<rparr>),
       \<lambda>(p, s). (p, s\<lparr>s_counts := (s_counts s)[s_counter_id s :=
                         counting_vector_add (s_counts s ! s_counter_id s)
                           (bulk_count rd ibf
                              (filter (\<lambda>hash. cfg_hash_partition arguments hash = part)
                                 (s_minimiser s)))]\<rparr>),
       \<lambda>(p, s). (p\<lparr>p_minimiser_count := length (s_minimiser s)\<rparr>, s),
       \<lambda>(p, s). (p\<lparr>p_threshold := thresholder_get arguments (p_minimiser_count p)\<rparr>, s),
       \<lambda>(p, s). (p, s\<lparr>s_result_string :=
                         append_hits (s_counts s ! s_counter_id s) (p_threshold p) 0
                           (s_result_string s),
                      s_counter_id := Suc (s_counter_id s)\<rparr>),
       \<lambda>(p, s). (p, s\<lparr>s_result_string := finish_line (s_result_string s)\<rparr>),
       \<lambda>(p, s). (p, s\<lparr>s_out := s_out s @ [Result (s_result_string s)]\<rparr>)])"

text \<open>
  A thread is the list of the statements it still has to execute, with its private
  variables. An execution of a loop is the pair of an assignment and an interleaving: the
  assignment gives, for every thread, the iterations it executes, in its order; the
  interleaving is a list of thread numbers, each entry letting that thread execute its
  next statement (an entry for a thread that has finished, or for no thread, does nothing).
  After the interleaving the threads run to their ends, one after the other, so that
  every execution completes all iterations. One thread with all iterations
  in index order is the execution \<open>one_thread\<close>.
\<close>

type_synonym thread = "statement list \<times> thread_private"

type_synonym execution = "nat list list \<times> nat list"

fun run_threads :: "nat list \<Rightarrow> thread list \<Rightarrow> shared \<Rightarrow> thread list \<times> shared" where
  "run_threads [] threads s = (threads, s)"
| "run_threads (t # interleaving) threads s =
     (if t < length threads then
        (case threads ! t of
           ([], p) \<Rightarrow> run_threads interleaving threads s
         | (stmt # program, p) \<Rightarrow>
             (case stmt (p, s) of
                (p', s') \<Rightarrow> run_threads interleaving (threads[t := (program, p')]) s'))
      else run_threads interleaving threads s)"

definition run_to_end :: "thread \<Rightarrow> shared \<Rightarrow> shared" where
  "run_to_end th s = snd (fold (\<lambda>stmt ps. stmt ps) (fst th) (snd th, s))"

definition parallel_for :: "(nat \<Rightarrow> statement list) \<Rightarrow> execution \<Rightarrow> shared \<Rightarrow> shared" where
  "parallel_for body exec s =
     (let threads = map (\<lambda>iterations. (concat (map body iterations),
                                          \<lparr>p_minimiser_count = 0, p_threshold = 0\<rparr>))
                        (fst exec)
      in case run_threads (snd exec) threads s of
           (threads, s) \<Rightarrow> fold run_to_end threads s)"

definition one_thread :: "nat \<Rightarrow> execution" where
  "one_thread n = ([[0..<n]], [])"

text \<open>An execution of a loop of \<open>n\<close> iterations executes every iteration once.\<close>

definition omp_execution :: "nat \<Rightarrow> execution \<Rightarrow> bool" where
  "omp_execution n exec = schedule n (concat (fst exec))"

text \<open>\<^verbatim>\<open>count_task\<close>: \<^verbatim>\<open>counter_id\<close> starts at 0 and \<^verbatim>\<open>minimiser\<close> empty in every call; the
  result is the vector \<^verbatim>\<open>counts\<close>.\<close>

definition count_task ::
  "row_hash \<Rightarrow> search_arguments \<Rightarrow> interleaved_bloom_filter \<Rightarrow> record_type list \<Rightarrow> nat \<Rightarrow>
   execution \<Rightarrow> u16 list list \<Rightarrow> u16 list list" where
  "count_task rd arguments ibf records part exec counts =
     s_counts (parallel_for (count_statements rd arguments ibf records part) exec
                 \<lparr>s_counts = counts, s_counter_id = 0, s_minimiser = [],
                  s_result_string = [], s_out = []\<rparr>)"

text \<open>\<^verbatim>\<open>output_task\<close>: the result is what \<^verbatim>\<open>synced_out\<close> has received.\<close>

definition output_task ::
  "row_hash \<Rightarrow> search_arguments \<Rightarrow> interleaved_bloom_filter \<Rightarrow> record_type list \<Rightarrow> nat \<Rightarrow>
   execution \<Rightarrow> u16 list list \<Rightarrow> written list \<Rightarrow> written list" where
  "output_task rd arguments ibf records part exec counts out =
     s_out (parallel_for (output_statements rd arguments ibf records part) exec
              \<lparr>s_counts = counts, s_counter_id = 0, s_minimiser = [],
               s_result_string = [], s_out = out\<rparr>)"

text \<open>The bound \<^verbatim>\<open>arguments.parts - 1u\<close> of the loop over the middle partitions is an
  unsigned subtraction (unsigned int, 32 bits): for \<open>parts = 0\<close> it wraps around.\<close>

definition parts_minus_one :: "nat \<Rightarrow> nat" where
  "parts_minus_one p = (if p = 0 then 2 ^ 32 - 1 else p - 1)"

text \<open>\<^verbatim>\<open>for (; part < arguments.parts - 1u; ++part) { load_index(index, arguments, part);
  count_task(); }\<close>, returning \<^verbatim>\<open>part\<close> and the counts; \<open>omp part\<close> is the execution of
  the loop of the task of partition \<open>part\<close>.\<close>

function count_loop ::
  "row_hash \<Rightarrow> search_arguments \<Rightarrow> (nat \<Rightarrow> execution) \<Rightarrow> record_type list \<Rightarrow> nat \<Rightarrow>
   u16 list list \<Rightarrow> error + (nat \<times> u16 list list)" where
  "count_loop rd arguments omp records part counts =
     (if part < parts_minus_one (parts arguments) then
        (case load_index arguments part of
           Inl e \<Rightarrow> Inl e
         | Inr ibf \<Rightarrow>
             count_loop rd arguments omp records (Suc part)
               (count_task rd arguments ibf records part (omp part) counts))
      else Inr (part, counts))"
  by pat_completeness auto
termination
  by (relation "measure (\<lambda>(rd, arguments, omp, records, part, counts).
        parts_minus_one (parts arguments) - part)") auto

declare count_loop.simps [simp del]

text \<open>
  The body of the loop of \<^verbatim>\<open>search_partitioned_ibf\<close> over the chunks, for the shuffled
  records of one chunk, after the header: the index of partition 0 has been loaded by the
  future and is counted first; the middle partitions follow; \<^verbatim>\<open>assert(part ==
  arguments.parts - 1u)\<close>; the last partition is loaded and \<^verbatim>\<open>output_task\<close> counts it and
  writes the lines.
\<close>

definition partitioned_chunk ::
  "row_hash \<Rightarrow> search_arguments \<Rightarrow> (nat \<Rightarrow> execution) \<Rightarrow> interleaved_bloom_filter \<Rightarrow>
   record_type list \<Rightarrow> written list \<Rightarrow> error + written list" where
  "partitioned_chunk rd arguments omp ibf0 records out =
     (let counts = replicate (length records) (replicate (bin_count ibf0) 0);
          part = 0;
          counts = count_task rd arguments ibf0 records part (omp part) counts;
          part = Suc part
      in case count_loop rd arguments omp records part counts of
           Inl e \<Rightarrow> Inl e
         | Inr (part, counts) \<Rightarrow>
             if part \<noteq> parts_minus_one (parts arguments) then Inl Assertion_Failed
             else (case load_index arguments part of
                     Inl e \<Rightarrow> Inl e
                   | Inr ibf \<Rightarrow>
                       Inr (output_task rd arguments ibf records part (omp part) counts out)))"

text \<open>The loop of \<^verbatim>\<open>search_partitioned_ibf\<close> over the chunks. Here the future is created
  inside the loop, once per chunk, and loads partition 0; \<open>hw\<close> is the function-local
  \<^verbatim>\<open>static bool header_written\<close>; \<open>omp k part\<close> is the execution of the loop of the task of
  partition \<open>part\<close> in chunk \<open>k\<close>.\<close>

fun partitioned_chunks ::
  "row_hash \<Rightarrow> (nat \<Rightarrow> record_type list \<Rightarrow> record_type list) \<Rightarrow> (nat \<Rightarrow> nat \<Rightarrow> execution) \<Rightarrow>
   search_arguments \<Rightarrow> nat \<Rightarrow> record_type list list \<Rightarrow> bool \<Rightarrow> written list \<Rightarrow> search_result" where
  "partitioned_chunks rd shuffle omp arguments k [] hw out =
     \<lparr>header_written = hw, synced_out = out, failure = None\<rparr>"
| "partitioned_chunks rd shuffle omp arguments k (chunked_records # rest) hw out =
     (let records = shuffle 0 chunked_records in
      case load_index arguments 0 of
        Inl e \<Rightarrow> \<lparr>header_written = hw, synced_out = out, failure = Some e\<rparr>
      | Inr ibf0 \<Rightarrow>
          (let out = (if hw then out else out @ [Header (hash_function_count ibf0)]) in
           case partitioned_chunk rd arguments (omp k) ibf0 records out of
             Inl e \<Rightarrow> \<lparr>header_written = True, synced_out = out, failure = Some e\<rparr>
           | Inr out \<Rightarrow> partitioned_chunks rd shuffle omp arguments (Suc k) rest True out))"

definition search_partitioned_ibf ::
  "row_hash \<Rightarrow> (nat \<Rightarrow> record_type list \<Rightarrow> record_type list) \<Rightarrow> (nat \<Rightarrow> nat \<Rightarrow> execution) \<Rightarrow>
   search_arguments \<Rightarrow> record_type list \<Rightarrow> bool \<Rightarrow> search_result" where
  "search_partitioned_ibf rd shuffle omp arguments query_file hw =
     partitioned_chunks rd shuffle omp arguments 0 (chunk chunk_size query_file) hw []"

subsection \<open>The loops run by one thread\<close>

text \<open>
  When no other thread interleaves, an iteration of either loop acts on the counts, on
  \<^verbatim>\<open>counter_id\<close> and on the output as the following steps do (the lemmas
  \<open>count_task_one_thread\<close> and \<open>output_task_one_thread\<close> derive this from the statements).
\<close>

definition filtered_minimiser :: "search_arguments \<Rightarrow> nat \<Rightarrow> dna4 list \<Rightarrow> u64 list" where
  "filtered_minimiser arguments part seq =
     filter (\<lambda>hash. cfg_hash_partition arguments hash = part) (hash_adaptor arguments seq)"

definition count_step ::
  "row_hash \<Rightarrow> search_arguments \<Rightarrow> interleaved_bloom_filter \<Rightarrow> record_type list \<Rightarrow> nat \<Rightarrow>
   nat \<Rightarrow> u16 list list \<times> nat \<Rightarrow> u16 list list \<times> nat" where
  "count_step rd arguments ibf records part i st =
     (let (counts, counter_id) = st;
          (rid, seq) = records ! i;
          filtered = filtered_minimiser arguments part seq
      in (counts[counter_id := counting_vector_add (counts ! counter_id) (bulk_count rd ibf filtered)],
          Suc counter_id))"

definition count_task_seq ::
  "row_hash \<Rightarrow> search_arguments \<Rightarrow> interleaved_bloom_filter \<Rightarrow> record_type list \<Rightarrow> nat \<Rightarrow>
   u16 list list \<Rightarrow> u16 list list" where
  "count_task_seq rd arguments ibf records part counts =
     fst (fold (count_step rd arguments ibf records part) [0..<length records] (counts, 0))"

definition output_step ::
  "row_hash \<Rightarrow> search_arguments \<Rightarrow> interleaved_bloom_filter \<Rightarrow> record_type list \<Rightarrow> nat \<Rightarrow>
   nat \<Rightarrow> u16 list list \<times> nat \<times> written list \<Rightarrow> u16 list list \<times> nat \<times> written list" where
  "output_step rd arguments ibf records part i st =
     (let (counts, counter_id, out) = st;
          (rid, seq) = records ! i;
          result_string = rid @ [tab];
          minimiser = hash_adaptor arguments seq;
          filtered = filtered_minimiser arguments part seq;
          counts = counts[counter_id :=
                     counting_vector_add (counts ! counter_id) (bulk_count rd ibf filtered)];
          minimiser_count = length minimiser;
          threshold = thresholder_get arguments minimiser_count;
          result_string = append_hits (counts ! counter_id) threshold 0 result_string
      in (counts, Suc counter_id, out @ [Result (finish_line result_string)]))"

definition output_task_seq ::
  "row_hash \<Rightarrow> search_arguments \<Rightarrow> interleaved_bloom_filter \<Rightarrow> record_type list \<Rightarrow> nat \<Rightarrow>
   u16 list list \<Rightarrow> written list \<Rightarrow> written list" where
  "output_task_seq rd arguments ibf records part counts out =
     snd (snd (fold (output_step rd arguments ibf records part) [0..<length records]
                 (counts, 0, out)))"

section \<open>The build orchestrator\<close>

text \<open>
  \<open>reader\<close> stands for the \<^verbatim>\<open>file_reader\<close> held in the variant (sequence files or
  minimiser files): the hashes it produces from the files of one user bin, in reading
  order. \<open>ibf_bin_size\<close> and \<open>hash\<close> are the dimensions from which
  \<^verbatim>\<open>raptor_index<> index{*arguments}\<close> allocates the filter, with one bin for each entry of
  \<^verbatim>\<open>bin_path\<close>.
\<close>

record build_arguments =
  bin_path :: "string list list"
  reader :: "string list \<Rightarrow> u64 list"
  ibf_bin_size :: nat
  hash :: nat

definition raptor_index :: "build_arguments \<Rightarrow> interleaved_bloom_filter" where
  "raptor_index arguments =
     ibf_new (length (bin_path arguments)) (hash arguments) (ibf_bin_size arguments)"

text \<open>Modelled from the spec: \<^verbatim>\<open>file_reader::hash_into\<close> and
  \<^verbatim>\<open>file_reader::hash_into_if\<close> are not part of the embedded sources; they hand every hash
  of the files (every hash that satisfies the predicate) to the sink.\<close>

definition hash_into :: "(string list \<Rightarrow> u64 list) \<Rightarrow> string list \<Rightarrow> (u64 \<Rightarrow> 's \<Rightarrow> 's) \<Rightarrow> 's \<Rightarrow> 's" where
  "hash_into rdr file_names sink target = fold sink (rdr file_names) target"

definition hash_into_if ::
  "(string list \<Rightarrow> u64 list) \<Rightarrow> string list \<Rightarrow> (u64 \<Rightarrow> 's \<Rightarrow> 's) \<Rightarrow> (u64 \<Rightarrow> bool) \<Rightarrow> 's \<Rightarrow> 's" where
  "hash_into_if rdr file_names sink pred target = fold sink (filter pred (rdr file_names)) target"

text \<open>The lambda \<^verbatim>\<open>worker\<close> of \<^verbatim>\<open>index_factory::construct\<close>; \<open>config\<close> is \<open>None\<close> for
  the null pointer.\<close>

definition construct_worker ::
  "row_hash \<Rightarrow> build_arguments \<Rightarrow> (u64 \<Rightarrow> nat) option \<Rightarrow> nat \<Rightarrow> string list \<times> nat \<Rightarrow>
   interleaved_bloom_filter \<Rightarrow> interleaved_bloom_filter" where
  "construct_worker rd arguments config part zipped ibf =
     (let (file_names, bin_number) = zipped in
      case config of
        None \<Rightarrow> hash_into (reader arguments) file_names (\<lambda>h. emplace rd h bin_number) ibf
      | Some hash_partition \<Rightarrow>
          hash_into_if (reader arguments) file_names (\<lambda>h. emplace rd h bin_number)
            (\<lambda>hash. hash_partition hash = part) ibf)"

text \<open>\<^verbatim>\<open>call_parallel_on_bins\<close>: the worker is invoked on \<^verbatim>\<open>zipped_view[i]\<close> for every \<open>i\<close>
  of the loop \<^verbatim>\<open>for (size_t i = 0; i < number_of_bins; ++i)\<close>; \<open>order\<close> is the order in
  which the threads take the iterations (\<open>[0..<number_of_bins]\<close> with one thread).\<close>

definition call_parallel_on_bins ::
  "nat list \<Rightarrow> (string list \<times> nat \<Rightarrow> 's \<Rightarrow> 's) \<Rightarrow> string list list \<Rightarrow> 's \<Rightarrow> 's" where
  "call_parallel_on_bins order work bin_paths st =
     (let number_of_bins = length bin_paths;
          zipped_view = zip bin_paths [0..<number_of_bins]
      in fold (\<lambda>i. work (zipped_view ! i)) order st)"

definition construct ::
  "row_hash \<Rightarrow> nat list \<Rightarrow> build_arguments \<Rightarrow> (u64 \<Rightarrow> nat) option \<Rightarrow> nat \<Rightarrow> interleaved_bloom_filter" where
  "construct rd order arguments config part =
     (let index = raptor_index arguments
      in call_parallel_on_bins order (construct_worker rd arguments config part)
           (bin_path arguments) index)"

section \<open>Prepare: minimiser files\<close>

text \<open>
  The file system as far as \<^verbatim>\<open>compute_minimiser\<close> touches it: for one input file, the
  content of the three files derived from its output path, \<open>None\<close> when the file does not
  exist. The minimiser file is the sequence of the 64-bit values written.
\<close>

record file_system =
  minimiser_file :: "u64 list option"
  header_file :: "string option"
  progress_file :: "unit option"

text \<open>The hash table \<^verbatim>\<open>robin_hood::unordered_map<uint64_t, uint8_t>\<close> as an association
  list with one entry per key. \<^verbatim>\<open>minimiser_table[hash]\<close> inserts the value 0 for a new key;
  the model appends the new key, and the table is traversed in list order (the order of
  the real table is unspecified).\<close>

fun table_lookup :: "(u64 \<times> u8) list \<Rightarrow> u64 \<Rightarrow> u8" where
  "table_lookup [] k = 0"
| "table_lookup ((k', v) # t) k = (if k' = k then v else table_lookup t k)"

fun table_update :: "(u64 \<times> u8) list \<Rightarrow> u64 \<Rightarrow> u8 \<Rightarrow> (u64 \<times> u8) list" where
  "table_update [] k v = [(k, v)]"
| "table_update ((k', v') # t) k v =
     (if k' = k then (k, v) # t else (k', v') # table_update t k v)"

text \<open>\<^verbatim>\<open>minimiser_table[hash] = std::min<uint8_t>(254u, minimiser_table[hash] + 1)\<close>: the sum
  is computed in \<^verbatim>\<open>int\<close> and converted to \<^verbatim>\<open>uint8_t\<close>.\<close>

definition count_hash :: "u64 \<Rightarrow> (u64 \<times> u8) list \<Rightarrow> (u64 \<times> u8) list" where
  "count_hash h minimiser_table =
     table_update minimiser_table h
       (min 254 (word_of_nat (unat (table_lookup minimiser_table h) + 1)))"

text \<open>The loop that writes the minimiser file: the hashes written, and \<^verbatim>\<open>count\<close>
  (\<^verbatim>\<open>uint64_t\<close>).\<close>

fun write_minimisers :: "(u64 \<times> u8) list \<Rightarrow> u8 \<Rightarrow> u64 list \<times> u64 \<Rightarrow> u64 list \<times> u64" where
  "write_minimisers [] cutoff st = st"
| "write_minimisers ((h, occurrences) # t) cutoff (outfile, cnt) =
     write_minimisers t cutoff
       (if occurrences \<ge> cutoff then (outfile @ [h], cnt + 1) else (outfile, cnt))"

record prepare_arguments =
  shape_to_string :: string
  window_size :: nat
  for_each_hash :: "string list \<Rightarrow> u64 list"
  cutoffs_get :: "string \<Rightarrow> u8"

definition header_line :: "prepare_arguments \<Rightarrow> u8 \<Rightarrow> u64 \<Rightarrow> string" where
  "header_line arguments cutoff cnt =
     shape_to_string arguments @ [tab] @ to_string (window_size arguments) @ [tab]
       @ to_string (unat cutoff) @ [tab] @ to_string (unat cnt) @ [newline]"

text \<open>
  The steps of one iteration of the loop of \<^verbatim>\<open>compute_minimiser\<close> that change the file
  system, in program order: an \<^verbatim>\<open>std::ofstream\<close> constructor creates the file or empties
  it, every \<^verbatim>\<open>outfile.write\<close> appends one hash, the header line is written by one
  statement, and \<^verbatim>\<open>std::filesystem::remove\<close> deletes the sentinel.
\<close>

datatype fs_step =
  Create_Progress
| Open_Minimiser
| Append_Minimiser u64
| Open_Header
| Append_Header string
| Remove_Progress

fun apply_step :: "fs_step \<Rightarrow> file_system \<Rightarrow> file_system" where
  "apply_step Create_Progress fs = fs\<lparr>progress_file := Some ()\<rparr>"
| "apply_step Open_Minimiser fs = fs\<lparr>minimiser_file := Some []\<rparr>"
| "apply_step (Append_Minimiser h) fs =
     fs\<lparr>minimiser_file := Some (case minimiser_file fs of None \<Rightarrow> [h] | Some c \<Rightarrow> c @ [h])\<rparr>"
| "apply_step Open_Header fs = fs\<lparr>header_file := Some []\<rparr>"
| "apply_step (Append_Header l) fs =
     fs\<lparr>header_file := Some (case header_file fs of None \<Rightarrow> l | Some c \<Rightarrow> c @ l)\<rparr>"
| "apply_step Remove_Progress fs = fs\<lparr>progress_file := None\<rparr>"

text \<open>\<^verbatim>\<open>bool const already_done = exists(minimiser_file) && exists(header_file) &&
  !exists(progress_file)\<close>\<close>

definition already_done :: "file_system \<Rightarrow> bool" where
  "already_done fs =
     (minimiser_file fs \<noteq> None \<and> header_file fs \<noteq> None \<and> \<not> progress_file fs \<noteq> None)"

definition minimiser_table_of :: "prepare_arguments \<Rightarrow> string list \<Rightarrow> (u64 \<times> u8) list" where
  "minimiser_table_of arguments file_names =
     fold count_hash (for_each_hash arguments file_names) []"

text \<open>The body of the loop for one entry \<^verbatim>\<open>file_names\<close> of \<^verbatim>\<open>bin_path\<close>, as the list of its
  file system steps: none when the entry is already done (\<^verbatim>\<open>continue\<close>). The cutoff is
  looked up for \<^verbatim>\<open>file_names[0]\<close>.\<close>

definition compute_minimiser_steps :: "prepare_arguments \<Rightarrow> string list \<Rightarrow> file_system \<Rightarrow> fs_step list" where
  "compute_minimiser_steps arguments file_names fs =
     (if already_done fs then []
      else
        (let minimiser_table = minimiser_table_of arguments file_names;
             cutoff = cutoffs_get arguments (file_names ! 0);
             (outfile, cnt) = write_minimisers minimiser_table cutoff ([], 0)
         in [Create_Progress, Open_Minimiser] @ map Append_Minimiser outfile
            @ [Open_Header, Append_Header (header_line arguments cutoff cnt), Remove_Progress]))"

text \<open>The body run to its end, and the body interrupted after \<open>k\<close> of its steps.\<close>

definition compute_minimiser :: "prepare_arguments \<Rightarrow> string list \<Rightarrow> file_system \<Rightarrow> file_system" where
  "compute_minimiser arguments file_names fs =
     fold apply_step (compute_minimiser_steps arguments file_names fs) fs"

definition compute_minimiser_upto :: "nat \<Rightarrow> prepare_arguments \<Rightarrow> string list \<Rightarrow> file_system \<Rightarrow> file_system" where
  "compute_minimiser_upto k arguments file_names fs =
     fold apply_step (take k (compute_minimiser_steps arguments file_names fs)) fs"

section \<open>Abstractions of a filter\<close>

text \<open>The positions of the bit matrix that hold a 1, and the membership answer of a filter
  for one hash and one bin: all \<open>H\<close> bits of the hash in the column of the bin are set.\<close>

definition set_bits :: "interleaved_bloom_filter \<Rightarrow> nat set" where
  "set_bits ibf = {pos. pos < length (bits ibf) \<and> bits ibf ! pos}"

definition may_contain :: "row_hash \<Rightarrow> interleaved_bloom_filter \<Rightarrow> u64 \<Rightarrow> nat \<Rightarrow> bool" where
  "may_contain rd ibf h b =
     list_all (\<lambda>i. bits ibf ! bit_offset rd ibf i h b) [0..<hash_function_count ibf]"

text \<open>A filter is well formed when its bit matrix has \<open>N * B\<close> bits and \<open>N\<close> is positive.\<close>

definition wf_ibf :: "interleaved_bloom_filter \<Rightarrow> bool" where
  "wf_ibf x = (length (bits x) = bin_size x * bin_count x \<and> 0 < bin_size x)"

text \<open>The hashes that the build inserts into bin \<open>k\<close>: all hashes of the files of entry \<open>k\<close>
  without a partition configuration, those of partition \<open>part\<close> with one.\<close>

definition bin_hashes :: "build_arguments \<Rightarrow> (u64 \<Rightarrow> nat) option \<Rightarrow> nat \<Rightarrow> nat \<Rightarrow> u64 list" where
  "bin_hashes arguments config part k =
     (case config of
        None \<Rightarrow> reader arguments (bin_path arguments ! k)
      | Some hash_partition \<Rightarrow>
          filter (\<lambda>hash. hash_partition hash = part) (reader arguments (bin_path arguments ! k)))"

section \<open>The output contract, in the specification's words\<close>

text \<open>
  The definitions of this section are written from the specification, not from the code;
  the theorems compare the code with them. The hit bins of a counting vector are the bin
  indices, in increasing order, whose count reaches the threshold; the line of a record is
  its id, a tab, the hits separated by commas, and a newline.
\<close>

definition hit_bins :: "u16 list \<Rightarrow> nat \<Rightarrow> nat list" where
  "hit_bins counts threshold = filter (\<lambda>b. threshold \<le> unat (counts ! b)) [0..<length counts]"

fun comma_separated :: "string list \<Rightarrow> string" where
  "comma_separated [] = []"
| "comma_separated [s] = s"
| "comma_separated (s # t # ss) = s @ [comma] @ comma_separated (t # ss)"

definition result_line :: "string \<Rightarrow> nat list \<Rightarrow> string" where
  "result_line rid bins = rid @ [tab] @ comma_separated (map to_string bins) @ [newline]"

text \<open>An output that is the line of a record, not the header.\<close>

fun is_result :: "written \<Rightarrow> bool" where
  "is_result (Result s) = True"
| "is_result (Header n) = False"

text \<open>A statement of a loop body that leaves the output as it is, or appends lines of
  records to it.\<close>

definition appends_results :: "statement \<Rightarrow> bool" where
  "appends_results stmt =
     (\<forall>p s. \<exists>lines. s_out (snd (stmt (p, s))) = s_out s @ lines \<and> list_all is_result lines)"

text \<open>The bins reported for a sequence by a single index: for a flat IBF the hit bins of
  its counts at the threshold of the number of minimisers, for an HIBF what
  \<^verbatim>\<open>membership_for\<close> returns at that threshold.\<close>

definition reported_bins :: "row_hash \<Rightarrow> search_arguments \<Rightarrow> index_t \<Rightarrow> dna4 list \<Rightarrow> nat list" where
  "reported_bins rd arguments index seq =
     (let minimiser = hash_adaptor arguments seq;
          threshold = thresholder_get arguments (length minimiser)
      in case index of
           Ibf ibf \<Rightarrow> hit_bins (bulk_count rd ibf minimiser) threshold
         | Hibf hfc membership_for \<Rightarrow> membership_for minimiser threshold)"

definition record_line :: "row_hash \<Rightarrow> search_arguments \<Rightarrow> index_t \<Rightarrow> record_type \<Rightarrow> written" where
  "record_line rd arguments index r =
     Result (result_line (fst r) (reported_bins rd arguments index (snd r)))"

text \<open>The accumulator of a record in the partitioned flow: starting from zeros, for each
  partition \<open>p\<close> in \<open>[0, P)\<close> the count of the minimisers of the record that belong to
  \<open>p\<close>, taken from the filter of \<open>p\<close>, is added.\<close>

definition partition_counts ::
  "row_hash \<Rightarrow> search_arguments \<Rightarrow> (nat \<Rightarrow> interleaved_bloom_filter) \<Rightarrow> dna4 list \<Rightarrow> u16 list" where
  "partition_counts rd arguments ibfs seq =
     fold (\<lambda>p acc. counting_vector_add acc
                      (bulk_count rd (ibfs p) (filtered_minimiser arguments p seq)))
          [0..<parts arguments] (replicate (bin_count (ibfs 0)) 0)"

section \<open>Example inputs\<close>

definition example_prepare_arguments :: prepare_arguments where
  "example_prepare_arguments =
     \<lparr>shape_to_string = ''1111'', window_size = 5,
      for_each_hash = (\<lambda>file_names. [7, 3, 7, 9, 7]),
      cutoffs_get = (\<lambda>file_name. 2)\<rparr>"

definition empty_directory :: file_system where
  "empty_directory = \<lparr>minimiser_file = None, header_file = None, progress_file = None\<rparr>"

text \<open>A build of two user bins and a query of two records: row hashes
  \<open>h div 2 + i\<close>, partitions by parity, four rows, two hash functions.\<close>

definition example_rd :: row_hash where
  "example_rd i h = unat h div 2 + i"

definition example_hash_partition :: "u64 \<Rightarrow> nat" where
  "example_hash_partition h = unat h mod 2"

definition example_build_arguments :: build_arguments where
  "example_build_arguments =
     \<lparr>bin_path = [[''bin0.fa''], [''bin1.fa'']],
      reader = (\<lambda>file_names. if file_names = [''bin0.fa''] then [0] else [5]),
      ibf_bin_size = 4, hash = 2\<rparr>"

definition example_flat :: interleaved_bloom_filter where
  "example_flat = construct example_rd [0, 1] example_build_arguments None 0"

definition example_partition :: "nat \<Rightarrow> interleaved_bloom_filter" where
  "example_partition p =
     construct example_rd [0, 1] example_build_arguments (Some example_hash_partition) p"

definition example_search_arguments :: search_arguments where
  "example_search_arguments =
     \<lparr>hash_adaptor = map (\<lambda>n. case n of A \<Rightarrow> 0 | C \<Rightarrow> 1 | G \<Rightarrow> 5 | T \<Rightarrow> 4),
      thresholder_get = (\<lambda>m. max 1 (m - 1)),
      parts = 2,
      cfg_hash_partition = example_hash_partition,
      load_index = (\<lambda>p. if p < 2 then Inr (example_partition p) else Inl Load_Error)\<rparr>"

definition short_records :: "record_type list" where
  "short_records = [(''short'', [])]"

definition example_records :: "record_type list" where
  "example_records = [(''r1'', [C]), (''r2'', [G, A])]"

text \<open>A stand-in for the shuffle (the reversal, whatever the seed) and two schedules.\<close>

definition example_shuffle :: "nat \<Rightarrow> record_type list \<Rightarrow> record_type list" where
  "example_shuffle seed records = rev records"

definition in_order :: "nat \<Rightarrow> nat \<Rightarrow> nat list" where
  "in_order k n = [0..<n]"

definition backwards :: "nat \<Rightarrow> nat \<Rightarrow> nat list" where
  "backwards k n = rev [0..<n]"

text \<open>Executions of a loop of two iterations by two threads: thread 0 executes iteration
  0, thread 1 iteration 1, and their statements interleave as the list says. In
  \<open>second_thread_first\<close> thread 1 executes its iteration of the loop of \<^verbatim>\<open>count_task\<close> for
  partition 0 before thread 0 starts; in \<open>overlapping_output\<close> and \<open>interrupted_output\<close>
  the statements of the two threads alternate in the loop of \<^verbatim>\<open>output_task\<close> (partition
  1). The other loops are run by one thread.\<close>

definition two_threads :: "nat list \<Rightarrow> execution" where
  "two_threads interleaving = ([[0], [1]], interleaving)"

definition second_thread_first :: "nat \<Rightarrow> execution" where
  "second_thread_first part = (if part = 0 then two_threads [1, 1] else one_thread 2)"

definition overlapping_output :: "nat \<Rightarrow> execution" where
  "overlapping_output part =
     (if part = 1
      then two_threads [0, 0, 0, 1, 1, 1, 0, 0, 0, 0, 1, 1, 1, 1, 0, 1, 0, 1, 0, 1]
      else one_thread 2)"

definition interrupted_output :: "nat \<Rightarrow> execution" where
  "interrupted_output part =
     (if part = 1 then two_threads [0, 1, 1, 1, 0, 0, 1, 1, 1, 1, 1, 1, 1] else one_thread 2)"

definition same_bin_records :: "record_type list" where
  "same_bin_records = [(''r1'', [A]), (''r2'', [A])]"

definition many_records :: "record_type list" where
  "many_records = replicate (Suc chunk_size) (''r'', [])"

section \<open>Prepare: the occurrence table and the files written\<close>

lemma table_lookup_update:
  "table_lookup (table_update t k v) k' = (if k' = k then v else table_lookup t k')"
  by (induction t) auto

lemma keys_table_update: "fst ` set (table_update t k v) = insert k (fst ` set t)"
proof (induction t)
  case Nil
  then show ?case by simp
next
  case (Cons e t)
  obtain k' v' where e: "e = (k', v')" by (cases e)
  show ?case using Cons.IH by (cases "k' = k") (simp_all add: e insert_commute)
qed

lemma distinct_table_update:
  "distinct (map fst t) \<Longrightarrow> distinct (map fst (table_update t k v))"
proof (induction t)
  case Nil
  then show ?case by simp
next
  case (Cons e t)
  obtain k' v' where e: "e = (k', v')" by (cases e)
  have "k' \<noteq> k \<Longrightarrow> k' \<notin> fst ` set (table_update t k v)"
    using Cons.prems by (simp add: keys_table_update e)
  with Cons show ?case by (auto simp: e)
qed

lemma table_lookup_distinct:
  "distinct (map fst t) \<Longrightarrow> (k, v) \<in> set t \<Longrightarrow> table_lookup t k = v"
  by (induction t) (auto simp: image_iff)

lemma unat_saturate_254:
  fixes v :: u8
  assumes "unat v \<le> 254"
  shows "unat (min 254 (word_of_nat (unat v + 1) :: u8)) = min 254 (unat v + 1)"
proof -
  have "unat (1 + v) = unat v + 1"
    using assms by (simp add: unat_word_ariths)
  then have "unat (word_of_nat (unat v + 1) :: u8) = unat v + 1"
    by simp
  moreover have "unat (min a b) = min (unat a) (unat b)" for a b :: u8
    by (simp add: min_def word_le_nat_alt)
  ultimately show ?thesis by simp
qed

lemma keys_count_hash: "fst ` set (count_hash h t) = insert h (fst ` set t)"
  by (simp add: count_hash_def keys_table_update)

lemma distinct_count_hash: "distinct (map fst t) \<Longrightarrow> distinct (map fst (count_hash h t))"
  by (simp add: count_hash_def distinct_table_update)

lemma keys_fold_count_hash: "fst ` set (fold count_hash hs t) = set hs \<union> fst ` set t"
  by (induction hs arbitrary: t) (auto simp: keys_count_hash)

lemma distinct_fold_count_hash:
  "distinct (map fst t) \<Longrightarrow> distinct (map fst (fold count_hash hs t))"
  by (induction hs arbitrary: t) (auto simp: distinct_count_hash)

lemma lookup_fold_count_hash:
  "\<forall>k. unat (table_lookup t k) \<le> 254 \<Longrightarrow>
   unat (table_lookup (fold count_hash hs t) h) = min 254 (unat (table_lookup t h) + count_list hs h)"
proof (induction hs arbitrary: t)
  case Nil
  then show ?case by (simp add: min_absorb2)
next
  case (Cons x hs)
  have step: "unat (table_lookup (count_hash x t) k) =
              (if k = x then min 254 (unat (table_lookup t x) + 1) else unat (table_lookup t k))" for k
    using Cons.prems unat_saturate_254 [of "table_lookup t x"]
    by (simp add: count_hash_def table_lookup_update del: of_nat_add of_nat_Suc)
  have inv: "\<forall>k. unat (table_lookup (count_hash x t) k) \<le> 254"
    using Cons.prems by (simp add: step)
  show ?case
    using Cons.IH [OF inv] by (auto simp: step min_def)
qed

lemma write_minimisers_eq:
  "write_minimisers t cutoff (outfile, cnt) =
     (outfile @ map fst (filter (\<lambda>e. snd e \<ge> cutoff) t),
      cnt + word_of_nat (length (filter (\<lambda>e. snd e \<ge> cutoff) t)))"
  by (induction t arbitrary: outfile cnt) auto

lemma fold_append_minimiser:
  "minimiser_file fs = Some c \<Longrightarrow>
   fold apply_step (map Append_Minimiser out) fs = fs\<lparr>minimiser_file := Some (c @ out)\<rparr>"
  by (induction out arbitrary: fs c) auto

lemma progress_file_fold_other:
  "Create_Progress \<notin> set ss \<Longrightarrow> Remove_Progress \<notin> set ss \<Longrightarrow>
   progress_file (fold apply_step ss fs) = progress_file fs"
proof (induction ss arbitrary: fs)
  case Nil
  then show ?case by simp
next
  case (Cons s ss)
  then show ?case by (cases s) auto
qed

lemma compute_minimiser_steps_not_done:
  assumes "\<not> already_done fs"
  shows "compute_minimiser_steps arguments file_names fs =
           [Create_Progress, Open_Minimiser]
           @ map Append_Minimiser (fst (write_minimisers (minimiser_table_of arguments file_names)
                (cutoffs_get arguments (file_names ! 0)) ([], 0)))
           @ [Open_Header,
              Append_Header (header_line arguments (cutoffs_get arguments (file_names ! 0))
                (snd (write_minimisers (minimiser_table_of arguments file_names)
                   (cutoffs_get arguments (file_names ! 0)) ([], 0)))),
              Remove_Progress]"
  using assms by (simp add: compute_minimiser_steps_def Let_def split: prod.splits)

lemma compute_minimiser_not_done:
  assumes "\<not> already_done fs"
  shows "compute_minimiser arguments file_names fs =
           \<lparr>minimiser_file = Some (fst (write_minimisers (minimiser_table_of arguments file_names)
                (cutoffs_get arguments (file_names ! 0)) ([], 0))),
            header_file = Some (header_line arguments (cutoffs_get arguments (file_names ! 0))
                (snd (write_minimisers (minimiser_table_of arguments file_names)
                   (cutoffs_get arguments (file_names ! 0)) ([], 0)))),
            progress_file = None\<rparr>"
  unfolding compute_minimiser_def compute_minimiser_steps_not_done [OF assms]
  by (simp add: fold_append_minimiser)

lemma compute_minimiser_done: "already_done fs \<Longrightarrow> compute_minimiser arguments file_names fs = fs"
  by (simp add: compute_minimiser_def compute_minimiser_steps_def)

lemma already_done_compute_minimiser: "already_done (compute_minimiser arguments file_names fs)"
  by (cases "already_done fs")
     (simp_all add: compute_minimiser_done compute_minimiser_not_done already_done_def)

lemma progress_file_upto:
  assumes "\<not> already_done fs" "0 < k" "k < length (compute_minimiser_steps arguments file_names fs)"
  shows "progress_file (compute_minimiser_upto k arguments file_names fs) = Some ()"
proof -
  let ?out = "fst (write_minimisers (minimiser_table_of arguments file_names)
                (cutoffs_get arguments (file_names ! 0)) ([], 0))"
  let ?hl = "header_line arguments (cutoffs_get arguments (file_names ! 0))
                (snd (write_minimisers (minimiser_table_of arguments file_names)
                   (cutoffs_get arguments (file_names ! 0)) ([], 0)))"
  let ?mid = "Open_Minimiser # map Append_Minimiser ?out @ [Open_Header, Append_Header ?hl]"
  have steps: "compute_minimiser_steps arguments file_names fs = Create_Progress # ?mid @ [Remove_Progress]"
    by (simp add: compute_minimiser_steps_not_done [OF assms(1)])
  obtain j where k: "k = Suc j" using assms(2) by (cases k) auto
  have j: "j \<le> length ?mid" using assms(3) by (simp add: steps k)
  have "take (Suc j) (c # m @ [r]) = c # take j m" if "j \<le> length m" for c r :: fs_step and m
    using that by simp
  from this [OF j]
  have tk: "take k (compute_minimiser_steps arguments file_names fs) = Create_Progress # take j ?mid"
    unfolding steps k .
  have "set (take j ?mid) \<subseteq> set ?mid" by (rule set_take_subset)
  then have "Create_Progress \<notin> set (take j ?mid)" "Remove_Progress \<notin> set (take j ?mid)"
    by auto
  then show ?thesis
    unfolding compute_minimiser_upto_def tk
    by (simp add: progress_file_fold_other)
qed

lemma not_done_upto:
  assumes "\<not> already_done fs" "k < length (compute_minimiser_steps arguments file_names fs)"
  shows "\<not> already_done (compute_minimiser_upto k arguments file_names fs)"
proof (cases k)
  case 0
  then show ?thesis using assms(1) by (simp add: compute_minimiser_upto_def)
next
  case (Suc j)
  then have "progress_file (compute_minimiser_upto k arguments file_names fs) = Some ()"
    using assms by (intro progress_file_upto) auto
  then show ?thesis by (simp add: already_done_def)
qed

lemma upto_all: "length (compute_minimiser_steps arguments file_names fs) \<le> k \<Longrightarrow>
  compute_minimiser_upto k arguments file_names fs = compute_minimiser arguments file_names fs"
  by (simp add: compute_minimiser_upto_def compute_minimiser_def)

lemma compute_minimiser_restart:
  "compute_minimiser arguments file_names (compute_minimiser_upto k arguments file_names fs)
     = compute_minimiser arguments file_names fs"
proof (cases "already_done fs")
  case True
  then show ?thesis
    by (simp add: compute_minimiser_upto_def compute_minimiser_def compute_minimiser_steps_def)
next
  case False
  show ?thesis
  proof (cases "k < length (compute_minimiser_steps arguments file_names fs)")
    case True
    from not_done_upto [OF False True] show ?thesis
      by (simp add: compute_minimiser_not_done False)
  next
    case False
    then show ?thesis
      by (simp add: upto_all compute_minimiser_done already_done_compute_minimiser)
  qed
qed

lemma outputs_before_remove:
  assumes "\<not> already_done fs"
  shows "compute_minimiser_upto (length (compute_minimiser_steps arguments file_names fs) - 1) arguments file_names fs
         = (compute_minimiser arguments file_names fs)\<lparr>progress_file := Some ()\<rparr>"
  unfolding compute_minimiser_upto_def compute_minimiser_not_done [OF assms]
     compute_minimiser_steps_not_done [OF assms]
  by (simp add: fold_append_minimiser)

lemma length_minimiser_table:
  "length (minimiser_table_of arguments file_names) \<le> length (for_each_hash arguments file_names)"
proof -
  let ?t = "minimiser_table_of arguments file_names"
  let ?hs = "for_each_hash arguments file_names"
  have d: "distinct (map fst ?t)"
    by (simp add: minimiser_table_of_def distinct_fold_count_hash)
  have "set (map fst ?t) = set ?hs"
    by (simp add: minimiser_table_of_def keys_fold_count_hash)
  then have "card (set (map fst ?t)) = card (set ?hs)" by simp
  then have "length (map fst ?t) = card (set ?hs)"
    using d by (simp only: distinct_card)
  then show ?thesis by (simp add: card_length)
qed

lemma lookup_minimiser_table:
  "unat (table_lookup (minimiser_table_of arguments file_names) h)
     = min 254 (count_list (for_each_hash arguments file_names) h)"
  by (simp add: minimiser_table_of_def lookup_fold_count_hash)

text \<open>
  Claim C4. For an input entry that is processed (not skipped), with fewer than \<open>2 ^ 64\<close>
  hashes in its files: the count kept for a minimiser is its number of occurrences
  saturated at 254; the minimiser file holds exactly the hashes of the input whose saturated
  count is at least the cutoff of the file, each once; and the header file is the single
  line of the shape string, the window size, the cutoff and the number of hashes written,
  separated by tabs.
\<close>

theorem compute_minimiser_output:
  assumes "\<not> already_done fs" and "file_names \<noteq> []"
    and "length (for_each_hash arguments file_names) < 2 ^ 64"
  shows "(\<forall>h. unat (table_lookup (minimiser_table_of arguments file_names) h)
               = min 254 (count_list (for_each_hash arguments file_names) h))
       \<and> (\<exists>written.
            minimiser_file (compute_minimiser arguments file_names fs) = Some written
          \<and> distinct written
          \<and> set written = {h \<in> set (for_each_hash arguments file_names).
               unat (cutoffs_get arguments (file_names ! 0))
                 \<le> min 254 (count_list (for_each_hash arguments file_names) h)}
          \<and> header_file (compute_minimiser arguments file_names fs)
              = Some (shape_to_string arguments @ [tab] @ to_string (window_size arguments) @ [tab]
                      @ to_string (unat (cutoffs_get arguments (file_names ! 0))) @ [tab]
                      @ to_string (length written) @ [newline]))"
proof -
  let ?t = "minimiser_table_of arguments file_names"
  let ?hs = "for_each_hash arguments file_names"
  let ?cutoff = "cutoffs_get arguments (file_names ! 0)"
  let ?kept = "filter (\<lambda>e. snd e \<ge> ?cutoff) ?t"
  let ?written = "map fst ?kept"
  have d: "distinct (map fst ?t)"
    by (simp add: minimiser_table_of_def distinct_fold_count_hash)
  have keys: "fst ` set ?t = set ?hs"
    by (simp add: minimiser_table_of_def keys_fold_count_hash)
  have wm: "write_minimisers ?t ?cutoff ([], 0) = (?written, word_of_nat (length ?kept))"
    by (simp add: write_minimisers_eq)
  have "length ?kept \<le> length ?t" by simp
  also have "\<dots> \<le> length ?hs" by (rule length_minimiser_table)
  finally have "length ?kept < 2 ^ 64" using assms(3) by simp
  then have cnt: "unat (word_of_nat (length ?kept) :: u64) = length ?kept"
    by (simp add: unat_of_nat take_bit_nat_eq_self)
  have dw: "distinct ?written"
    using d by (simp add: distinct_map_filter)
  have sw: "set ?written = {h \<in> set ?hs. unat ?cutoff \<le> min 254 (count_list ?hs h)}"
  proof (rule set_eqI)
    fix h
    have "h \<in> set ?written \<longleftrightarrow> (\<exists>v. (h, v) \<in> set ?t \<and> ?cutoff \<le> v)"
      by (auto simp: image_iff)
    also have "\<dots> \<longleftrightarrow> h \<in> fst ` set ?t \<and> ?cutoff \<le> table_lookup ?t h"
      using table_lookup_distinct [OF d] by (force simp: image_iff)
    also have "\<dots> \<longleftrightarrow> h \<in> set ?hs \<and> unat ?cutoff \<le> min 254 (count_list ?hs h)"
      by (simp only: keys word_le_nat_alt lookup_minimiser_table)
    finally show "h \<in> set ?written \<longleftrightarrow>
        h \<in> {h \<in> set ?hs. unat ?cutoff \<le> min 254 (count_list ?hs h)}"
      by simp
  qed
  have mf: "minimiser_file (compute_minimiser arguments file_names fs) = Some ?written"
    by (simp add: compute_minimiser_not_done [OF assms(1)] wm)
  have hf: "header_file (compute_minimiser arguments file_names fs)
              = Some (shape_to_string arguments @ [tab] @ to_string (window_size arguments) @ [tab]
                      @ to_string (unat ?cutoff) @ [tab] @ to_string (length ?written) @ [newline])"
    unfolding compute_minimiser_not_done [OF assms(1)] wm header_line_def by (simp add: cnt)
  show ?thesis
    using mf dw sw hf lookup_minimiser_table by blast
qed

theorem compute_minimiser_output_witness:
  "\<not> already_done empty_directory \<and> [''bin0.fa''] \<noteq> ([] :: string list)
   \<and> length (for_each_hash example_prepare_arguments [''bin0.fa'']) < 2 ^ 64
   \<and> minimiser_file (compute_minimiser example_prepare_arguments [''bin0.fa''] empty_directory)
       = Some [7]
   \<and> header_file (compute_minimiser example_prepare_arguments [''bin0.fa''] empty_directory)
       = Some (''1111'' @ [tab] @ ''5'' @ [tab] @ ''2'' @ [tab] @ ''1'' @ [newline])"
proof -
  have h1: "\<not> already_done empty_directory"
    by (simp add: already_done_def empty_directory_def)
  have h2: "[''bin0.fa''] \<noteq> ([] :: string list)" by simp
  have h3: "length (for_each_hash example_prepare_arguments [''bin0.fa'']) < 2 ^ 64"
    by (simp add: example_prepare_arguments_def)
  from compute_minimiser_output [OF h1 h2 h3]
  obtain written where
    w: "minimiser_file (compute_minimiser example_prepare_arguments [''bin0.fa''] empty_directory)
          = Some written"
    and s: "set written = {h \<in> set (for_each_hash example_prepare_arguments [''bin0.fa'']).
               unat (cutoffs_get example_prepare_arguments ([''bin0.fa''] ! 0))
                 \<le> min 254 (count_list (for_each_hash example_prepare_arguments [''bin0.fa'']) h)}"
    and d: "distinct written"
    and h: "header_file (compute_minimiser example_prepare_arguments [''bin0.fa''] empty_directory)
              = Some (shape_to_string example_prepare_arguments @ [tab]
                      @ to_string (window_size example_prepare_arguments) @ [tab]
                      @ to_string (unat (cutoffs_get example_prepare_arguments ([''bin0.fa''] ! 0))) @ [tab]
                      @ to_string (length written) @ [newline])"
    by blast
  have "set written = {7}"
    unfolding s by (auto simp: example_prepare_arguments_def)
  then have sw: "set written = {7}" .
  have "length written = 1"
    using d sw distinct_card [of written] by simp
  then obtain x where "written = [x]"
    by (cases written) auto
  with sw have "written = [7]" by simp
  then show ?thesis
    using h1 h3 w h by (simp add: example_prepare_arguments_def to_string.simps digit_char_def)
qed

lemma hd_last_steps:
  assumes "\<not> already_done fs"
  shows "hd (compute_minimiser_steps arguments file_names fs) = Create_Progress"
    and "last (compute_minimiser_steps arguments file_names fs) = Remove_Progress"
  by (simp_all add: compute_minimiser_steps_not_done [OF assms])

text \<open>
  Claim C5. An entry is skipped exactly when both output files exist and the sentinel
  does not; a skipped entry leaves the files as they are. Otherwise the first step creates
  the sentinel and the last step removes it: the sentinel exists after every proper,
  non-empty prefix of the steps, both outputs have their final content before the removal,
  and the entry is not done after any proper prefix, so that a restart after an
  interruption computes the same files as the uninterrupted run; after a completed run the
  entry is done and a further run changes nothing.
\<close>

theorem compute_minimiser_sentinel:
  "(compute_minimiser_steps arguments file_names fs = [])
     = (minimiser_file fs \<noteq> None \<and> header_file fs \<noteq> None \<and> progress_file fs = None)
   \<and> (already_done fs \<longrightarrow> compute_minimiser arguments file_names fs = fs)
   \<and> (\<not> already_done fs \<longrightarrow>
        hd (compute_minimiser_steps arguments file_names fs) = Create_Progress
      \<and> last (compute_minimiser_steps arguments file_names fs) = Remove_Progress
      \<and> (\<forall>k. 0 < k \<and> k < length (compute_minimiser_steps arguments file_names fs) \<longrightarrow>
             progress_file (compute_minimiser_upto k arguments file_names fs) = Some ())
      \<and> compute_minimiser_upto (length (compute_minimiser_steps arguments file_names fs) - 1)
             arguments file_names fs
           = (compute_minimiser arguments file_names fs)\<lparr>progress_file := Some ()\<rparr>
      \<and> (\<forall>k. k < length (compute_minimiser_steps arguments file_names fs) \<longrightarrow>
             \<not> already_done (compute_minimiser_upto k arguments file_names fs)))
   \<and> (\<forall>k. compute_minimiser arguments file_names
             (compute_minimiser_upto k arguments file_names fs)
           = compute_minimiser arguments file_names fs)
   \<and> already_done (compute_minimiser arguments file_names fs)
   \<and> compute_minimiser arguments file_names (compute_minimiser arguments file_names fs)
       = compute_minimiser arguments file_names fs"
proof -
  have skip: "(compute_minimiser_steps arguments file_names fs = [])
     = (minimiser_file fs \<noteq> None \<and> header_file fs \<noteq> None \<and> progress_file fs = None)"
  proof (cases "already_done fs")
    case True
    then show ?thesis
      by (cases "progress_file fs") (auto simp: compute_minimiser_steps_def already_done_def)
  next
    case False
    then show ?thesis
      by (cases "progress_file fs") (auto simp: compute_minimiser_steps_not_done already_done_def)
  qed
  have again: "compute_minimiser arguments file_names (compute_minimiser arguments file_names fs)
       = compute_minimiser arguments file_names fs"
    by (simp add: compute_minimiser_done already_done_compute_minimiser)
  show ?thesis
    using skip again compute_minimiser_done [of fs arguments file_names]
      hd_last_steps [of fs arguments file_names]
      progress_file_upto [of fs _ arguments file_names]
      outputs_before_remove [of fs arguments file_names]
      not_done_upto [of fs _ arguments file_names]
      compute_minimiser_restart [of arguments file_names _ fs]
      already_done_compute_minimiser [of arguments file_names fs]
    by (intro conjI impI allI) blast+
qed

theorem compute_minimiser_sentinel_witness:
  "\<not> already_done empty_directory
   \<and> 0 < (2::nat)
   \<and> 2 < length (compute_minimiser_steps example_prepare_arguments [''bin0.fa''] empty_directory)
   \<and> progress_file (compute_minimiser_upto 2 example_prepare_arguments [''bin0.fa''] empty_directory)
       = Some ()
   \<and> \<not> already_done
         (compute_minimiser_upto 2 example_prepare_arguments [''bin0.fa''] empty_directory)
   \<and> already_done (compute_minimiser example_prepare_arguments [''bin0.fa''] empty_directory)
   \<and> compute_minimiser example_prepare_arguments [''bin0.fa'']
         (compute_minimiser_upto 2 example_prepare_arguments [''bin0.fa''] empty_directory)
       = \<lparr>minimiser_file = Some [7],
          header_file = Some (''1111'' @ [tab] @ ''5'' @ [tab] @ ''2'' @ [tab] @ ''1'' @ [newline]),
          progress_file = None\<rparr>"
proof -
  have nd: "\<not> already_done empty_directory"
    by (simp add: already_done_def empty_directory_def)
  have len: "2 < length (compute_minimiser_steps example_prepare_arguments [''bin0.fa''] empty_directory)"
    by (simp add: compute_minimiser_steps_not_done [OF nd])
  have run: "compute_minimiser example_prepare_arguments [''bin0.fa''] empty_directory
       = \<lparr>minimiser_file = Some [7],
          header_file = Some (''1111'' @ [tab] @ ''5'' @ [tab] @ ''2'' @ [tab] @ ''1'' @ [newline]),
          progress_file = None\<rparr>"
    by code_simp
  note sentinel =
    compute_minimiser_sentinel [of example_prepare_arguments "[''bin0.fa'']" empty_directory]
  from sentinel nd len
  have p: "progress_file (compute_minimiser_upto 2 example_prepare_arguments [''bin0.fa''] empty_directory)
       = Some ()"
    by (metis zero_less_numeral)
  from sentinel nd len
  have q: "\<not> already_done
         (compute_minimiser_upto 2 example_prepare_arguments [''bin0.fa''] empty_directory)"
    by blast
  from sentinel
  have r: "already_done (compute_minimiser example_prepare_arguments [''bin0.fa''] empty_directory)"
    by blast
  from sentinel
  have t: "compute_minimiser example_prepare_arguments [''bin0.fa'']
         (compute_minimiser_upto 2 example_prepare_arguments [''bin0.fa''] empty_directory)
       = compute_minimiser example_prepare_arguments [''bin0.fa''] empty_directory"
    by blast
  show ?thesis
    using nd len p q r t run by simp
qed

section \<open>The line of a record\<close>

lemma filter_upt_Suc:
  "filter P [0..<Suc n] = (if P 0 then [0] else []) @ map Suc (filter (P \<circ> Suc) [0..<n])"
proof -
  have "[0..<Suc n] = 0 # map Suc [0..<n]"
    by (simp add: upt_conv_Cons map_Suc_upt del: upt_Suc)
  then show ?thesis by (simp add: filter_map del: upt_Suc)
qed

lemma append_hits_eq:
  "append_hits result threshold current_bin result_string =
     result_string @ concat (map (\<lambda>b. to_string (current_bin + b) @ [comma])
                               (hit_bins result threshold))"
proof (induction result arbitrary: current_bin result_string)
  case Nil
  then show ?case by (simp add: hit_bins_def)
next
  case (Cons c result)
  have "hit_bins (c # result) threshold =
          (if threshold \<le> unat c then [0] else []) @ map Suc (hit_bins result threshold)"
    unfolding hit_bins_def by (simp add: filter_upt_Suc comp_def del: upt_Suc)
  then show ?case
    by (simp add: Cons.IH comp_def)
qed

lemma append_ids_eq:
  "append_ids result result_string =
     result_string @ concat (map (\<lambda>b. to_string b @ [comma]) result)"
  by (induction result arbitrary: result_string) auto

lemma concat_comma: "ss \<noteq> [] \<Longrightarrow> concat (map (\<lambda>s. s @ [comma]) ss) = comma_separated ss @ [comma]"
  by (induction ss rule: comma_separated.induct) auto

lemma tab_neq_comma: "tab \<noteq> comma"
  by (simp add: tab_def comma_def)

lemma finish_line_eq:
  "finish_line (rid @ [tab] @ concat (map (\<lambda>b. to_string b @ [comma]) bins)) = result_line rid bins"
proof (cases bins)
  case Nil
  then show ?thesis by (simp add: finish_line_def result_line_def tab_neq_comma)
next
  case (Cons b bs)
  then have "concat (map (\<lambda>b. to_string b @ [comma]) bins)
               = comma_separated (map to_string bins) @ [comma]"
    using concat_comma [of "map to_string bins"] by (simp add: comp_def)
  then show ?thesis
    by (simp add: finish_line_def result_line_def butlast_append)
qed

lemma to_string_digits: "set (to_string n) \<subseteq> set ''0123456789'' \<and> to_string n \<noteq> []"
proof (induction n rule: to_string.induct)
  case (1 n)
  have d: "digit_char k \<in> set ''0123456789''" if "k < 10" for k
    using that unfolding digit_char_def by (intro nth_mem) simp
  show ?case
  proof (cases "n < 10")
    case True
    then show ?thesis using d [of n] by (subst (1 2) to_string.simps) simp
  next
    case False
    then show ?thesis using 1 d [of "n mod 10"]
      by (subst (1 2) to_string.simps) simp
  qed
qed

lemma comma_notin_to_string: "comma \<notin> set (to_string n)"
  using to_string_digits [of n] by (auto simp: comma_def)

lemma last_comma_separated:
  "ss \<noteq> [] \<Longrightarrow> \<forall>s \<in> set ss. s \<noteq> [] \<and> comma \<notin> set s \<Longrightarrow> last (comma_separated ss) \<noteq> comma"
proof (induction ss rule: comma_separated.induct)
  case 1
  then show ?case by simp
next
  case (2 s)
  then have "s \<noteq> []" "comma \<notin> set s" by auto
  then show ?case by (metis comma_separated.simps(2) last_in_set)
next
  case (3 s t ss)
  then have "comma_separated (t # ss) \<noteq> []" by (cases ss) auto
  with 3 show ?case by simp
qed

lemma no_trailing_comma:
  "bins \<noteq> [] \<Longrightarrow> last (comma_separated (map to_string bins)) \<noteq> comma"
  using to_string_digits by (intro last_comma_separated) (auto simp: comma_notin_to_string)

lemma worker_ibf_line:
  assumes "records ! record_id = (rid, seq)"
  shows "worker rd arguments (Ibf ibf) records record_id out =
           out @ [Result (result_line rid
                   (hit_bins (bulk_count rd ibf (hash_adaptor arguments seq))
                      (thresholder_get arguments (length (hash_adaptor arguments seq)))))]"
  using assms finish_line_eq [of rid]
  by (simp add: worker_def Let_def append_hits_eq)

lemma worker_hibf_line:
  assumes "records ! record_id = (rid, seq)"
  shows "worker rd arguments (Hibf hfc membership_for) records record_id out =
           out @ [Result (result_line rid
                   (membership_for (hash_adaptor arguments seq)
                      (thresholder_get arguments (length (hash_adaptor arguments seq)))))]"
  using assms finish_line_eq [of rid]
  by (simp add: worker_def Let_def append_ids_eq)

section \<open>The partitioned flow: the tasks of one chunk\<close>

text \<open>One thread that executes all iterations in index order, with no interleaving,
  executes the steps \<open>count_step\<close> and \<open>output_step\<close> one after the other.\<close>

lemma fold_concat_map:
  "fold f (concat (map g xs)) a = fold (\<lambda>x. fold f (g x)) xs a"
  by (induction xs arbitrary: a) simp_all

lemma parallel_for_one_thread:
  "parallel_for body (one_thread n) s =
     snd (fold (\<lambda>i ps. fold (\<lambda>stmt ps. stmt ps) (body i) ps) [0..<n]
            (\<lparr>p_minimiser_count = 0, p_threshold = 0\<rparr>, s))"
  by (simp add: parallel_for_def one_thread_def run_to_end_def fold_concat_map)

lemma count_statements_step:
  "\<exists>p' s'. fold (\<lambda>stmt ps. stmt ps) (count_statements rd arguments ibf records part i) (p, s)
             = (p', s')
         \<and> (s_counts s', s_counter_id s')
             = count_step rd arguments ibf records part i (s_counts s, s_counter_id s)
         \<and> s_out s' = s_out s"
  by (cases "records ! i")
     (simp add: count_statements_def count_step_def filtered_minimiser_def Let_def)

lemma output_statements_step:
  "\<exists>p' s'. fold (\<lambda>stmt ps. stmt ps) (output_statements rd arguments ibf records part i) (p, s)
             = (p', s')
         \<and> (s_counts s', s_counter_id s', s_out s')
             = output_step rd arguments ibf records part i (s_counts s, s_counter_id s, s_out s)"
  by (cases "records ! i")
     (simp add: output_statements_def output_step_def filtered_minimiser_def Let_def)

lemma count_iterations:
  "\<exists>p' s'. fold (\<lambda>i ps. fold (\<lambda>stmt ps. stmt ps)
                            (count_statements rd arguments ibf records part i) ps) is (p, s)
             = (p', s')
         \<and> (s_counts s', s_counter_id s')
             = fold (count_step rd arguments ibf records part) is (s_counts s, s_counter_id s)"
proof (induction "is" arbitrary: p s)
  case Nil
  then show ?case by simp
next
  case (Cons i "is")
  obtain p1 s1 where 1:
    "fold (\<lambda>stmt ps. stmt ps) (count_statements rd arguments ibf records part i) (p, s) = (p1, s1)"
    "(s_counts s1, s_counter_id s1)
       = count_step rd arguments ibf records part i (s_counts s, s_counter_id s)"
    using count_statements_step [of rd arguments ibf records part i p s] by blast
  from Cons.IH [of p1 s1] show ?case
    by (simp add: 1)
qed

lemma output_iterations:
  "\<exists>p' s'. fold (\<lambda>i ps. fold (\<lambda>stmt ps. stmt ps)
                            (output_statements rd arguments ibf records part i) ps) is (p, s)
             = (p', s')
         \<and> (s_counts s', s_counter_id s', s_out s')
             = fold (output_step rd arguments ibf records part) is
                 (s_counts s, s_counter_id s, s_out s)"
proof (induction "is" arbitrary: p s)
  case Nil
  then show ?case by simp
next
  case (Cons i "is")
  obtain p1 s1 where 1:
    "fold (\<lambda>stmt ps. stmt ps) (output_statements rd arguments ibf records part i) (p, s) = (p1, s1)"
    "(s_counts s1, s_counter_id s1, s_out s1)
       = output_step rd arguments ibf records part i (s_counts s, s_counter_id s, s_out s)"
    using output_statements_step [of rd arguments ibf records part i p s] by blast
  from Cons.IH [of p1 s1] show ?case
    by (simp add: 1)
qed

lemma count_task_one_thread:
  "count_task rd arguments ibf records part (one_thread (length records)) counts =
     count_task_seq rd arguments ibf records part counts"
proof -
  let ?s = "\<lparr>s_counts = counts, s_counter_id = 0, s_minimiser = [],
             s_result_string = [], s_out = []\<rparr>"
  obtain p' s' where
    "fold (\<lambda>i ps. fold (\<lambda>stmt ps. stmt ps)
                      (count_statements rd arguments ibf records part i) ps) [0..<length records]
          (\<lparr>p_minimiser_count = 0, p_threshold = 0\<rparr>, ?s) = (p', s')"
    "(s_counts s', s_counter_id s')
       = fold (count_step rd arguments ibf records part) [0..<length records]
           (s_counts ?s, s_counter_id ?s)"
    using count_iterations by blast
  then show ?thesis
    by (simp add: count_task_def count_task_seq_def parallel_for_one_thread)
       (metis fst_conv)
qed

lemma output_task_one_thread:
  "output_task rd arguments ibf records part (one_thread (length records)) counts out =
     output_task_seq rd arguments ibf records part counts out"
proof -
  let ?s = "\<lparr>s_counts = counts, s_counter_id = 0, s_minimiser = [],
             s_result_string = [], s_out = out\<rparr>"
  obtain p' s' where
    "fold (\<lambda>i ps. fold (\<lambda>stmt ps. stmt ps)
                      (output_statements rd arguments ibf records part i) ps) [0..<length records]
          (\<lparr>p_minimiser_count = 0, p_threshold = 0\<rparr>, ?s) = (p', s')"
    "(s_counts s', s_counter_id s', s_out s')
       = fold (output_step rd arguments ibf records part) [0..<length records]
           (s_counts ?s, s_counter_id ?s, s_out ?s)"
    using output_iterations by blast
  then show ?thesis
    by (simp add: output_task_def output_task_seq_def parallel_for_one_thread)
       (metis snd_conv)
qed

lemma map_upt_update:
  "k < n \<Longrightarrow> (map g [0..<n])[k := v] = map (g(k := v)) [0..<n]"
  by (rule nth_equalityI) (auto simp: nth_list_update)

lemma count_step_at:
  "count_step rd arguments ibf records part k (cs, k) =
     (cs[k := counting_vector_add (cs ! k)
                (bulk_count rd ibf (filtered_minimiser arguments part (snd (records ! k))))],
      Suc k)"
  by (simp add: count_step_def Let_def split: prod.splits)

lemma output_step_at:
  assumes "k < length cs"
  shows "output_step rd arguments ibf records part k (cs, k, out) =
     (cs[k := counting_vector_add (cs ! k)
                (bulk_count rd ibf (filtered_minimiser arguments part (snd (records ! k))))],
      Suc k,
      out @ [Result (result_line (fst (records ! k))
               (hit_bins (counting_vector_add (cs ! k)
                            (bulk_count rd ibf (filtered_minimiser arguments part (snd (records ! k)))))
                  (thresholder_get arguments (length (hash_adaptor arguments (snd (records ! k)))))))])"
proof -
  obtain rid seq where r: "records ! k = (rid, seq)"
    by (cases "records ! k")
  show ?thesis
    using assms finish_line_eq [of rid]
    by (simp add: output_step_def Let_def append_hits_eq r)
qed

lemma count_fold:
  assumes "k \<le> length records" "length counts = length records"
  shows "fold (count_step rd arguments ibf records part) [0..<k] (counts, 0) =
           (map (\<lambda>j. if j < k
                       then counting_vector_add (counts ! j)
                              (bulk_count rd ibf (filtered_minimiser arguments part (snd (records ! j))))
                       else counts ! j) [0..<length counts], k)"
  using assms(1)
proof (induction k)
  case 0
  then show ?case by (simp add: map_nth)
next
  case (Suc k)
  then have k: "k < length counts" using assms(2) by simp
  let ?f = "\<lambda>j. counting_vector_add (counts ! j)
                  (bulk_count rd ibf (filtered_minimiser arguments part (snd (records ! j))))"
  let ?g = "\<lambda>k j. if j < k then ?f j else counts ! j"
  have g: "(?g k)(k := ?f k) = ?g (Suc k)"
    by (auto simp: fun_eq_iff less_Suc_eq)
  have "fold (count_step rd arguments ibf records part) [0..<Suc k] (counts, 0) =
          count_step rd arguments ibf records part k (map (?g k) [0..<length counts], k)"
    using Suc by simp
  also have "\<dots> = ((map (?g k) [0..<length counts])[k := ?f k], Suc k)"
    using k by (simp add: count_step_at)
  also have "\<dots> = (map (?g (Suc k)) [0..<length counts], Suc k)"
    using k by (simp only: map_upt_update g)
  finally show ?case .
qed

lemma count_task_seq_eq:
  assumes "length counts = length records"
  shows "count_task_seq rd arguments ibf records part counts =
           map (\<lambda>j. counting_vector_add (counts ! j)
                      (bulk_count rd ibf (filtered_minimiser arguments part (snd (records ! j)))))
               [0..<length records]"
  using count_fold [OF le_refl assms, of rd arguments ibf part] assms
  by (simp add: count_task_seq_def)

lemma length_count_task_seq:
  "length counts = length records \<Longrightarrow>
   length (count_task_seq rd arguments ibf records part counts) = length records"
  by (simp add: count_task_seq_eq)

lemma output_fold:
  assumes "k \<le> length records" "length counts = length records"
  shows "fold (output_step rd arguments ibf records part) [0..<k] (counts, 0, out) =
           (map (\<lambda>j. if j < k
                       then counting_vector_add (counts ! j)
                              (bulk_count rd ibf (filtered_minimiser arguments part (snd (records ! j))))
                       else counts ! j) [0..<length counts], k,
            out @ map (\<lambda>j. Result (result_line (fst (records ! j))
                     (hit_bins (counting_vector_add (counts ! j)
                              (bulk_count rd ibf (filtered_minimiser arguments part (snd (records ! j)))))
                        (thresholder_get arguments (length (hash_adaptor arguments (snd (records ! j))))))))
                  [0..<k])"
  using assms(1)
proof (induction k)
  case 0
  then show ?case by (simp add: map_nth)
next
  case (Suc k)
  then have k: "k < length counts" using assms(2) by simp
  let ?f = "\<lambda>j. counting_vector_add (counts ! j)
                  (bulk_count rd ibf (filtered_minimiser arguments part (snd (records ! j))))"
  let ?g = "\<lambda>k j. if j < k then ?f j else counts ! j"
  let ?l = "\<lambda>j. Result (result_line (fst (records ! j))
                     (hit_bins (?f j)
                        (thresholder_get arguments (length (hash_adaptor arguments (snd (records ! j)))))))"
  have g: "(?g k)(k := ?f k) = ?g (Suc k)"
    by (auto simp: fun_eq_iff less_Suc_eq)
  have "fold (output_step rd arguments ibf records part) [0..<Suc k] (counts, 0, out) =
          output_step rd arguments ibf records part k
            (map (?g k) [0..<length counts], k, out @ map ?l [0..<k])"
    using Suc by simp
  also have "\<dots> = ((map (?g k) [0..<length counts])[k := ?f k], Suc k, out @ map ?l [0..<k] @ [?l k])"
    using k by (simp add: output_step_at)
  also have "\<dots> = (map (?g (Suc k)) [0..<length counts], Suc k, out @ map ?l [0..<Suc k])"
    using k by (simp only: map_upt_update g) simp
  finally show ?case .
qed

lemma output_task_seq_eq:
  assumes "length counts = length records"
  shows "output_task_seq rd arguments ibf records part counts out =
           out @ map (\<lambda>j. Result (result_line (fst (records ! j))
                     (hit_bins (counting_vector_add (counts ! j)
                              (bulk_count rd ibf (filtered_minimiser arguments part (snd (records ! j)))))
                        (thresholder_get arguments (length (hash_adaptor arguments (snd (records ! j))))))))
                  [0..<length records]"
  using output_fold [OF le_refl assms, of rd arguments ibf part out]
  by (simp add: output_task_seq_def)

lemma count_loop_eq:
  assumes "1 \<le> parts arguments"
    and "\<forall>p < parts arguments - 1. load_index arguments p = Inr (ibfs p)"
    and "\<forall>p < parts arguments - 1. omp p = one_thread (length records)"
    and "part \<le> parts arguments - 1"
  shows "count_loop rd arguments omp records part counts =
           Inr (parts arguments - 1,
                fold (\<lambda>p c. count_task_seq rd arguments (ibfs p) records p c)
                     [part..<parts arguments - 1] counts)"
  using assms(4)
proof (induction "parts arguments - 1 - part" arbitrary: part counts)
  case 0
  then have "part = parts arguments - 1" by simp
  then show ?case
    using assms(1) by (subst count_loop.simps) (simp add: parts_minus_one_def)
next
  case (Suc d)
  then have lt: "part < parts arguments - 1" by simp
  then have load: "load_index arguments part = Inr (ibfs part)"
    using assms(2) by simp
  have exec: "omp part = one_thread (length records)"
    using assms(3) lt by simp
  have d: "d = parts arguments - 1 - Suc part" using Suc.hyps(2) by simp
  have le: "Suc part \<le> parts arguments - 1" using lt by simp
  have "count_loop rd arguments omp records part counts =
          count_loop rd arguments omp records (Suc part)
            (count_task_seq rd arguments (ibfs part) records part counts)"
    using lt assms(1)
    by (subst count_loop.simps)
       (simp add: parts_minus_one_def load exec count_task_one_thread)
  also have "\<dots> = Inr (parts arguments - 1,
                fold (\<lambda>p c. count_task_seq rd arguments (ibfs p) records p c)
                     [Suc part..<parts arguments - 1]
                     (count_task_seq rd arguments (ibfs part) records part counts))"
    by (rule Suc.hyps(1) [OF d le])
  finally show ?case
    using lt by (simp only: upt_conv_Cons [OF lt] fold_Cons comp_apply)
qed

lemma fold_count_task_seq:
  assumes "length counts = length records"
  shows "fold (\<lambda>p c. count_task_seq rd arguments (ibfs p) records p c) ps counts =
           map (\<lambda>j. fold (\<lambda>p acc. counting_vector_add acc
                              (bulk_count rd (ibfs p)
                                 (filtered_minimiser arguments p (snd (records ! j)))))
                          ps (counts ! j))
               [0..<length records]"
  using assms
proof (induction ps arbitrary: counts)
  case Nil
  have "map (\<lambda>j. counts ! j) [0..<length counts] = counts"
    by (rule map_nth)
  then show ?case using Nil by simp
next
  case (Cons p ps)
  let ?c = "count_task_seq rd arguments (ibfs p) records p counts"
  have len: "length ?c = length records"
    using Cons.prems by (rule length_count_task_seq)
  have nth: "?c ! j = counting_vector_add (counts ! j)
                        (bulk_count rd (ibfs p) (filtered_minimiser arguments p (snd (records ! j))))"
    if "j < length records" for j
    using that by (simp add: count_task_seq_eq [OF Cons.prems])
  let ?step = "\<lambda>j p acc. counting_vector_add acc
                   (bulk_count rd (ibfs p) (filtered_minimiser arguments p (snd (records ! j))))"
  have "fold (\<lambda>p c. count_task_seq rd arguments (ibfs p) records p c) (p # ps) counts =
          fold (\<lambda>p c. count_task_seq rd arguments (ibfs p) records p c) ps ?c"
    by simp
  also have "\<dots> = map (\<lambda>j. fold (?step j) ps (?c ! j)) [0..<length records]"
    by (rule Cons.IH [OF len])
  also have "\<dots> = map (\<lambda>j. fold (?step j) (p # ps) (counts ! j)) [0..<length records]"
    by (rule map_cong [OF refl]) (simp add: nth)
  finally show ?case .
qed

lemma map_upt_nth: "map (\<lambda>j. f (xs ! j)) [0..<length xs] = map f xs"
  by (rule nth_equalityI) auto

lemma partitioned_chunk_eq:
  assumes P: "2 \<le> parts arguments"
    and loads: "\<forall>p < parts arguments. load_index arguments p = Inr (ibfs p)"
    and omp: "\<forall>p < parts arguments. omp p = one_thread (length records)"
  shows "partitioned_chunk rd arguments omp (ibfs 0) records out =
           Inr (out @ map (\<lambda>r. Result (result_line (fst r)
                    (hit_bins (partition_counts rd arguments ibfs (snd r))
                       (thresholder_get arguments (length (hash_adaptor arguments (snd r)))))))
                  records)"
proof -
  let ?P = "parts arguments"
  let ?n = "length records"
  let ?z = "replicate (bin_count (ibfs 0)) (0 :: u16)"
  let ?c0 = "replicate ?n ?z"
  let ?step = "\<lambda>j p acc. counting_vector_add acc
                   (bulk_count rd (ibfs p) (filtered_minimiser arguments p (snd (records ! j))))"
  let ?task = "\<lambda>p c. count_task_seq rd arguments (ibfs p) records p c"
  let ?c1 = "fold ?task [0..<?P - 1] ?c0"
  have pm: "parts_minus_one ?P = ?P - 1"
    using P by (simp add: parts_minus_one_def)
  have upt: "[0..<?P - 1] = 0 # [Suc 0..<?P - 1]"
    using P by (intro upt_conv_Cons) simp
  have omp0: "omp 0 = one_thread ?n" and ompL: "omp (?P - 1) = one_thread ?n"
    using P omp by simp_all
  have "count_loop rd arguments omp records (Suc 0) (?task 0 ?c0) =
          Inr (?P - 1, fold ?task [Suc 0..<?P - 1] (?task 0 ?c0))"
    by (rule count_loop_eq) (use P loads omp in auto)
  moreover have "?c1 = fold ?task [Suc 0..<?P - 1] (?task 0 ?c0)"
    by (subst upt) simp
  ultimately have loop: "count_loop rd arguments omp records (Suc 0) (?task 0 ?c0) = Inr (?P - 1, ?c1)"
    by simp
  have last: "load_index arguments (?P - 1) = Inr (ibfs (?P - 1))"
    using P loads by simp
  have c1: "?c1 = map (\<lambda>j. fold (?step j) [0..<?P - 1] (?c0 ! j)) [0..<?n]"
    by (rule fold_count_task_seq) simp
  have len1: "length ?c1 = ?n"
    by (subst c1) simp
  have full: "[0..<?P] = [0..<?P - 1] @ [?P - 1]"
  proof -
    have "?P = Suc (?P - 1)" using P by simp
    then have "[0..<?P] = [0..<Suc (?P - 1)]" by simp
    then show ?thesis by (simp only: upt_Suc_append [OF le0])
  qed
  have acc: "counting_vector_add (?c1 ! j)
               (bulk_count rd (ibfs (?P - 1))
                  (filtered_minimiser arguments (?P - 1) (snd (records ! j))))
             = partition_counts rd arguments ibfs (snd (records ! j))"
    if "j < ?n" for j
    using that by (subst c1) (simp add: partition_counts_def full del: upt_Suc)
  have "partitioned_chunk rd arguments omp (ibfs 0) records out =
          Inr (output_task_seq rd arguments (ibfs (?P - 1)) records (?P - 1) ?c1 out)"
    using loop pm last ompL
    by (simp add: partitioned_chunk_def Let_def omp0 count_task_one_thread
          output_task_one_thread)
  also have "output_task_seq rd arguments (ibfs (?P - 1)) records (?P - 1) ?c1 out =
          out @ map (\<lambda>j. Result (result_line (fst (records ! j))
                     (hit_bins (counting_vector_add (?c1 ! j)
                              (bulk_count rd (ibfs (?P - 1))
                                 (filtered_minimiser arguments (?P - 1) (snd (records ! j)))))
                        (thresholder_get arguments (length (hash_adaptor arguments (snd (records ! j))))))))
                  [0..<?n]"
    by (rule output_task_seq_eq [OF len1])
  also have "\<dots> = out @ map (\<lambda>j. Result (result_line (fst (records ! j))
                     (hit_bins (partition_counts rd arguments ibfs (snd (records ! j)))
                        (thresholder_get arguments (length (hash_adaptor arguments (snd (records ! j))))))))
                  [0..<?n]"
    using acc by (intro arg_cong2 [of _ _ _ _ "(@)"] refl map_cong) simp
  also have "\<dots> = out @ map (\<lambda>r. Result (result_line (fst r)
                    (hit_bins (partition_counts rd arguments ibfs (snd r))
                       (thresholder_get arguments (length (hash_adaptor arguments (snd r)))))))
                  records"
    by (simp only: map_upt_nth [of "\<lambda>r. Result (result_line (fst r)
                    (hit_bins (partition_counts rd arguments ibfs (snd r))
                       (thresholder_get arguments (length (hash_adaptor arguments (snd r))))))" records])
  finally show ?thesis .
qed

lemma worker_line:
  "worker rd arguments index records record_id out =
     out @ [record_line rd arguments index (records ! record_id)]"
proof -
  obtain rid seq where r: "records ! record_id = (rid, seq)"
    by (cases "records ! record_id")
  show ?thesis
  proof (cases index)
    case (Ibf ibf)
    then show ?thesis
      by (simp add: worker_ibf_line [OF r] record_line_def reported_bins_def Let_def r)
  next
    case (Hibf hfc membership_for)
    then show ?thesis
      by (simp add: worker_hibf_line [OF r] record_line_def reported_bins_def Let_def r)
  qed
qed

lemma do_parallel_worker:
  "do_parallel order (worker rd arguments index records) out =
     out @ map (\<lambda>i. record_line rd arguments index (records ! i)) order"
  unfolding do_parallel_def
  by (induction order arbitrary: out) (simp_all add: worker_line)

lemma schedule_image_mset:
  assumes "schedule (length xs) order"
  shows "mset (map (\<lambda>i. f (xs ! i)) order) = image_mset f (mset xs)"
proof -
  have "mset (map (\<lambda>i. f (xs ! i)) order) = image_mset (\<lambda>i. f (xs ! i)) (mset order)"
    by simp
  also have "\<dots> = image_mset (\<lambda>i. f (xs ! i)) (mset [0..<length xs])"
    using assms by (simp only: schedule_def)
  also have "\<dots> = mset (map (\<lambda>i. f (xs ! i)) [0..<length xs])"
    by simp
  also have "\<dots> = mset (map f xs)"
    by (simp only: map_upt_nth)
  finally show ?thesis by simp
qed

lemma sorted_hit_bins: "sorted_wrt (<) (hit_bins counts threshold)"
  unfolding hit_bins_def by (rule sorted_wrt_filter) simp

lemma distinct_hit_bins: "distinct (hit_bins counts threshold)"
  unfolding hit_bins_def by simp

lemma set_hit_bins:
  "set (hit_bins counts threshold) = {b. b < length counts \<and> threshold \<le> unat (counts ! b)}"
  unfolding hit_bins_def by auto

lemma bulk_count_Nil: "bulk_count rd ibf [] = replicate (bin_count ibf) 0"
  by (simp add: bulk_count_def)

lemma hit_bins_zero: "1 \<le> threshold \<Longrightarrow> hit_bins (replicate n 0) threshold = []"
  by (auto simp: hit_bins_def filter_empty_conv)

section \<open>The partitioned flow: accumulation over the partitions\<close>

lemma upt_two: "[0..<2] = [0, 1]"
  by (simp add: upt_rec)

text \<open>
  Claim C2 describes the partitioned flow as one thread executes it (lemma
  \<open>partitioned_chunk_eq\<close>), but not as the code runs with two threads: \<^verbatim>\<open>counter_id\<close> is
  shared by the threads of the loop, so the row of \<^verbatim>\<open>counts\<close> that an iteration adds to is
  the row of the order in which the iterations reach the statement, not the row of its
  record. With two partitions and the records \<open>r1\<close> and \<open>r2\<close>, when thread 1 executes
  iteration 1 of the loop of \<^verbatim>\<open>count_task\<close> before thread 0 executes iteration 0, row 0
  receives the counts of \<open>r2\<close> and row 1 those of \<open>r1\<close>; the lines written are then
  \<open>r1\<close> with bin 0 and \<open>r2\<close> with bin 1, where the accumulators of the claim give \<open>r1\<close>
  without a bin and \<open>r2\<close> with the bins 0 and 1. In the execution every loop executes each
  of its iterations once.
\<close>

theorem partitioned_flow_shared_counter:
  "count_task example_rd example_search_arguments (example_partition 0) example_records 0
       (two_threads [1, 1]) (replicate 2 (replicate (bin_count (example_partition 0)) 0))
     = map (\<lambda>(rid, seq). bulk_count example_rd (example_partition 0)
              (filter (\<lambda>hash. cfg_hash_partition example_search_arguments hash = 0)
                 (hash_adaptor example_search_arguments seq)))
         (rev example_records)
   \<and> partitioned_chunk example_rd example_search_arguments second_thread_first
        (example_partition 0) example_records []
     = Inr [Result (''r1'' @ [tab] @ ''0'' @ [newline]),
            Result (''r2'' @ [tab] @ ''1'' @ [newline])]
   \<and> map (\<lambda>(rid, seq). Result (result_line rid
            (hit_bins
               (fold (\<lambda>p acc. counting_vector_add acc
                        (bulk_count example_rd (example_partition p)
                           (filter (\<lambda>hash. cfg_hash_partition example_search_arguments hash = p)
                              (hash_adaptor example_search_arguments seq))))
                     [0..<parts example_search_arguments]
                     (replicate (bin_count (example_partition 0)) 0))
               (thresholder_get example_search_arguments
                  (length (hash_adaptor example_search_arguments seq))))))
        example_records
     = [Result (''r1'' @ [tab, newline]), Result (''r2'' @ [tab] @ ''0,1'' @ [newline])]
   \<and> (\<forall>part. omp_execution (length example_records) (second_thread_first part))"
proof -
  have "omp_execution (length example_records) (second_thread_first part)" for part
    by (simp add: omp_execution_def second_thread_first_def two_threads_def one_thread_def
          schedule_def example_records_def upt_two del: mset_upt)
  moreover have "count_task example_rd example_search_arguments (example_partition 0)
       example_records 0 (two_threads [1, 1])
       (replicate 2 (replicate (bin_count (example_partition 0)) 0))
     = map (\<lambda>(rid, seq). bulk_count example_rd (example_partition 0)
              (filter (\<lambda>hash. cfg_hash_partition example_search_arguments hash = 0)
                 (hash_adaptor example_search_arguments seq)))
         (rev example_records)"
    by code_simp
  moreover have "partitioned_chunk example_rd example_search_arguments second_thread_first
        (example_partition 0) example_records []
     = Inr [Result (''r1'' @ [tab] @ ''0'' @ [newline]),
            Result (''r2'' @ [tab] @ ''1'' @ [newline])]"
    by code_simp
  moreover have "map (\<lambda>(rid, seq). Result (result_line rid
            (hit_bins
               (fold (\<lambda>p acc. counting_vector_add acc
                        (bulk_count example_rd (example_partition p)
                           (filter (\<lambda>hash. cfg_hash_partition example_search_arguments hash = p)
                              (hash_adaptor example_search_arguments seq))))
                     [0..<parts example_search_arguments]
                     (replicate (bin_count (example_partition 0)) 0))
               (thresholder_get example_search_arguments
                  (length (hash_adaptor example_search_arguments seq))))))
        example_records
     = [Result (''r1'' @ [tab, newline]), Result (''r2'' @ [tab] @ ''0,1'' @ [newline])]"
    by code_simp
  ultimately show ?thesis by (intro conjI allI)
qed

section \<open>The lines written by the search\<close>

lemma chunk_Nil [simp]: "chunk n [] = []"
  by (simp add: chunk.simps)

lemma chunk_short: "xs \<noteq> [] \<Longrightarrow> length xs \<le> n \<Longrightarrow> chunk n xs = [xs]"
  by (subst chunk.simps) (cases xs; simp)

lemma chunk_Cons: "xs \<noteq> [] \<Longrightarrow> 0 < n \<Longrightarrow> chunk n xs = take n xs # chunk n (drop n xs)"
  by (subst chunk.simps) simp

lemma chunk_size_pos: "0 < chunk_size"
  by (simp add: chunk_size_def)

lemma chunk_long:
  assumes "chunk_size < length xs"
  shows "\<exists>c rest. chunk chunk_size xs = take chunk_size xs # c # rest"
proof -
  have ne: "xs \<noteq> []" and dne: "drop chunk_size xs \<noteq> []"
    using assms by auto
  have "chunk chunk_size xs = take chunk_size xs # chunk chunk_size (drop chunk_size xs)"
    by (rule chunk_Cons [OF ne chunk_size_pos])
  moreover have "chunk chunk_size (drop chunk_size xs)
      = take chunk_size (drop chunk_size xs) # chunk chunk_size (drop chunk_size (drop chunk_size xs))"
    by (rule chunk_Cons [OF dne chunk_size_pos])
  ultimately show ?thesis by simp
qed

lemma singular_second_chunk:
  "singular_chunks rd shuffle sched arguments k (c1 # c2 # rest) (Some (Inr index)) hw out =
     \<lparr>header_written = True,
      synced_out = (if hw then out else out @ [write_header index])
                   @ map (\<lambda>i. record_line rd arguments index (shuffle 0 c1 ! i))
                       (sched k (length (shuffle 0 c1))),
      failure = Some Future_Error\<rparr>"
  by (simp add: Let_def do_parallel_worker)

text \<open>
  Claim C6. The worker of the flat search writes, for its record, exactly one string: the
  id, a tab, the reported bins separated by commas, and a newline. But the search does not
  write such a line for every record of the query file. In \<^verbatim>\<open>search_singular_ibf\<close> the
  future is created once and \<^verbatim>\<open>cereal_future.get()\<close> is called for every chunk: a query
  file of more than \<open>10 * 2 ^ 20\<close> records has a second chunk, whose \<^verbatim>\<open>get()\<close> fails, so
  the run ends with an error and has written the lines of the records of the first chunk
  only. In \<^verbatim>\<open>search_partitioned_ibf\<close> the string \<^verbatim>\<open>result_string\<close> and \<^verbatim>\<open>counter_id\<close> are shared
  by the threads of the loop of \<^verbatim>\<open>output_task\<close>: with two threads whose statements
  alternate, the two strings written for the records \<open>r1\<close> and \<open>r2\<close> both start with
  \<open>r2\<close>, a tab and \<open>r1\<close>, and the second holds two lines. In the execution every loop
  executes each of its iterations once.
\<close>

theorem search_loses_and_garbles_lines:
  "worker rd arguments index records record_id out =
     out @ [Result (result_line (fst (records ! record_id))
              (reported_bins rd arguments index (snd (records ! record_id))))]
   \<and> (chunk_size < length query_file \<longrightarrow>
        failure (search_singular_ibf rd shuffle sched arguments (Inr index) query_file hw)
          = Some Future_Error
      \<and> synced_out (search_singular_ibf rd shuffle sched arguments (Inr index) query_file hw)
          = (if hw then [] else [write_header index])
            @ map (\<lambda>i. Result (result_line (fst (shuffle 0 (take chunk_size query_file) ! i))
                         (reported_bins rd arguments index
                            (snd (shuffle 0 (take chunk_size query_file) ! i)))))
                (sched 0 (length (shuffle 0 (take chunk_size query_file)))))
   \<and> partitioned_chunk example_rd example_search_arguments interrupted_output
        (example_partition 0) same_bin_records []
       = Inr [Result (''r2'' @ [tab] @ ''r1'' @ [tab] @ ''0'' @ [newline]),
              Result (''r2'' @ [tab] @ ''r1'' @ [tab] @ ''0'' @ [newline] @ ''0'' @ [newline])]
   \<and> (\<forall>part. omp_execution (length same_bin_records) (interrupted_output part))"
proof -
  have "worker rd arguments index records record_id out =
           out @ [Result (result_line (fst (records ! record_id))
                    (reported_bins rd arguments index (snd (records ! record_id))))]"
    by (simp add: worker_line record_line_def)
  moreover have "failure (search_singular_ibf rd shuffle sched arguments (Inr index) query_file hw)
           = Some Future_Error
       \<and> synced_out (search_singular_ibf rd shuffle sched arguments (Inr index) query_file hw)
           = (if hw then [] else [write_header index])
             @ map (\<lambda>i. Result (result_line (fst (shuffle 0 (take chunk_size query_file) ! i))
                          (reported_bins rd arguments index
                             (snd (shuffle 0 (take chunk_size query_file) ! i)))))
                 (sched 0 (length (shuffle 0 (take chunk_size query_file))))"
    if long: "chunk_size < length query_file"
  proof -
    obtain c rest where c: "chunk chunk_size query_file = take chunk_size query_file # c # rest"
      using chunk_long [OF long] by blast
    show ?thesis
      by (simp add: search_singular_ibf_def c singular_second_chunk record_line_def
               del: singular_chunks.simps)
  qed
  moreover have "partitioned_chunk example_rd example_search_arguments interrupted_output
            (example_partition 0) same_bin_records []
           = Inr [Result (''r2'' @ [tab] @ ''r1'' @ [tab] @ ''0'' @ [newline]),
                  Result (''r2'' @ [tab] @ ''r1'' @ [tab] @ ''0'' @ [newline] @ ''0'' @ [newline])]"
    by code_simp
  moreover have "omp_execution (length same_bin_records) (interrupted_output part)" for part
    by (simp add: omp_execution_def interrupted_output_def two_threads_def one_thread_def
          schedule_def same_bin_records_def upt_two del: mset_upt)
  ultimately show ?thesis by (intro conjI allI impI) blast+
qed

theorem search_loses_and_garbles_lines_witness:
  "chunk_size < length many_records
   \<and> failure (search_singular_ibf example_rd example_shuffle in_order example_search_arguments
        (Inr (Ibf example_flat)) many_records False) = Some Future_Error
   \<and> length (filter is_result
        (synced_out (search_singular_ibf example_rd example_shuffle in_order
           example_search_arguments (Inr (Ibf example_flat)) many_records False)))
       = chunk_size"
proof -
  have l: "chunk_size < length many_records"
    by (simp add: many_records_def)
  note lost = search_loses_and_garbles_lines [where rd = example_rd
      and shuffle = example_shuffle and sched = in_order
      and arguments = example_search_arguments and index = "Ibf example_flat" and hw = False
      and records = many_records and record_id = 0 and out = "[]"
      and query_file = many_records, THEN conjunct2, THEN conjunct1, THEN mp, OF l]
  from lost have f: "failure (search_singular_ibf example_rd example_shuffle in_order
        example_search_arguments (Inr (Ibf example_flat)) many_records False) = Some Future_Error"
    by (rule conjunct1)
  from lost have "synced_out (search_singular_ibf example_rd example_shuffle in_order
        example_search_arguments (Inr (Ibf example_flat)) many_records False)
     = (if False then [] else [write_header (Ibf example_flat)])
             @ map (\<lambda>i. Result (result_line (fst (example_shuffle 0 (take chunk_size many_records) ! i))
                          (reported_bins example_rd example_search_arguments (Ibf example_flat)
                             (snd (example_shuffle 0 (take chunk_size many_records) ! i)))))
                 (in_order 0 (length (example_shuffle 0 (take chunk_size many_records))))"
    by (rule conjunct2)
  then have "length (filter is_result
        (synced_out (search_singular_ibf example_rd example_shuffle in_order
           example_search_arguments (Inr (Ibf example_flat)) many_records False)))
       = chunk_size"
    by (simp add: in_order_def example_shuffle_def many_records_def write_header_def
          filter_map comp_def)
  with l f show ?thesis by (intro conjI)
qed

text \<open>
  Claim C8 (the counts are those of the IBF as the specification describes it). For a
  record whose minimiser stream is empty, when the threshold for 0 minimisers is at least
  1: the count of every bin is zero, no bin reaches the threshold, and the worker writes
  the id, a tab and a newline.
\<close>

theorem empty_minimiser_stream_line:
  assumes "records ! record_id = (rid, seq)"
    and "hash_adaptor arguments seq = []"
    and "1 \<le> thresholder_get arguments 0"
  shows "bulk_count rd ibf (hash_adaptor arguments seq) = replicate (bin_count ibf) 0
       \<and> hit_bins (bulk_count rd ibf (hash_adaptor arguments seq))
            (thresholder_get arguments (length (hash_adaptor arguments seq))) = []
       \<and> worker rd arguments (Ibf ibf) records record_id out = out @ [Result (rid @ [tab, newline])]"
  using assms
  by (simp add: worker_ibf_line [OF assms(1)] bulk_count_Nil hit_bins_zero result_line_def)

theorem empty_minimiser_stream_line_witness:
  "short_records ! 0 = (''short'', [])
   \<and> hash_adaptor example_search_arguments [] = []
   \<and> 1 \<le> thresholder_get example_search_arguments 0
   \<and> bulk_count example_rd example_flat (hash_adaptor example_search_arguments [])
        = replicate (bin_count example_flat) 0
   \<and> worker example_rd example_search_arguments (Ibf example_flat) short_records 0 []
        = [Result (''short'' @ [tab, newline])]"
proof -
  have h1: "short_records ! 0 = (''short'', [])"
    by (simp add: short_records_def)
  have h2: "hash_adaptor example_search_arguments [] = []"
    by (simp add: example_search_arguments_def)
  have h3: "1 \<le> thresholder_get example_search_arguments 0"
    by (simp add: example_search_arguments_def)
  show ?thesis
    using empty_minimiser_stream_line [OF h1 h2 h3,
        where rd = example_rd and ibf = example_flat and out = "[]"] h1 h2 h3
    by simp
qed


text \<open>
  Claim C10. The emitting loop appends, for a counting vector, exactly the bin indices
  whose count reaches the threshold, in increasing index order, each once; so the bins of
  the line that the flat IBF worker writes are strictly increasing. The lines of the
  partitioned search are not: the loop of \<^verbatim>\<open>output_task\<close> appends to the string
  \<^verbatim>\<open>result_string\<close> that its threads share. With two threads whose statements alternate,
  for two records whose minimisers are in bin 0, both threads append their hits to the one
  string, and both strings written are \<open>r2\<close>, a tab, the bins \<open>0,0\<close> and two newlines:
  bin 0 is reported twice in a line, where one thread writes \<open>r1\<close> and \<open>r2\<close> with bin 0
  each. In the execution every loop executes each of its iterations once.
\<close>

theorem partitioned_line_repeats_bin:
  "(\<forall>counts threshold result_string.
        append_hits counts threshold 0 result_string =
          result_string @ concat (map (\<lambda>b. to_string b @ [comma]) (hit_bins counts threshold))
      \<and> sorted_wrt (<) (hit_bins counts threshold)
      \<and> distinct (hit_bins counts threshold))
   \<and> worker rd arguments (Ibf ibf) records record_id out =
       out @ [Result (result_line (fst (records ! record_id))
                (hit_bins (bulk_count rd ibf (hash_adaptor arguments (snd (records ! record_id))))
                   (thresholder_get arguments
                      (length (hash_adaptor arguments (snd (records ! record_id)))))))]
   \<and> partitioned_chunk example_rd example_search_arguments overlapping_output
        (example_partition 0) same_bin_records []
       = Inr [Result (''r2'' @ [tab] @ ''0,0'' @ [newline, newline]),
              Result (''r2'' @ [tab] @ ''0,0'' @ [newline, newline])]
   \<and> partitioned_chunk example_rd example_search_arguments (\<lambda>part. one_thread 2)
        (example_partition 0) same_bin_records []
       = Inr [Result (''r1'' @ [tab] @ ''0'' @ [newline]),
              Result (''r2'' @ [tab] @ ''0'' @ [newline])]
   \<and> (\<forall>part. omp_execution (length same_bin_records) (overlapping_output part))"
proof -
  have "append_hits counts threshold 0 result_string =
          result_string @ concat (map (\<lambda>b. to_string b @ [comma]) (hit_bins counts threshold))"
    for counts threshold result_string
    by (simp add: append_hits_eq)
  moreover have "worker rd arguments (Ibf ibf) records record_id out =
           out @ [Result (result_line (fst (records ! record_id))
                    (hit_bins (bulk_count rd ibf (hash_adaptor arguments (snd (records ! record_id))))
                       (thresholder_get arguments
                          (length (hash_adaptor arguments (snd (records ! record_id)))))))]"
    by (rule worker_ibf_line) simp
  moreover have "partitioned_chunk example_rd example_search_arguments overlapping_output
        (example_partition 0) same_bin_records []
       = Inr [Result (''r2'' @ [tab] @ ''0,0'' @ [newline, newline]),
              Result (''r2'' @ [tab] @ ''0,0'' @ [newline, newline])]"
    by code_simp
  moreover have "partitioned_chunk example_rd example_search_arguments (\<lambda>part. one_thread 2)
        (example_partition 0) same_bin_records []
       = Inr [Result (''r1'' @ [tab] @ ''0'' @ [newline]),
              Result (''r2'' @ [tab] @ ''0'' @ [newline])]"
    by code_simp
  moreover have "omp_execution (length same_bin_records) (overlapping_output part)" for part
    by (simp add: omp_execution_def overlapping_output_def two_threads_def one_thread_def
          schedule_def same_bin_records_def upt_two del: mset_upt)
  ultimately show ?thesis
    using sorted_hit_bins distinct_hit_bins by (intro conjI allI) blast+
qed

section \<open>The bits set by the build\<close>

lemma fold_update_True_length: "length (fold (\<lambda>i m. m[f i := True]) is m) = length m"
  by (induction "is" arbitrary: m) auto

lemma fold_update_True_nth:
  "pos < length m \<Longrightarrow>
   fold (\<lambda>i m. m[f i := True]) is m ! pos = (m ! pos \<or> pos \<in> f ` set is)"
proof (induction "is" arbitrary: m)
  case Nil
  then show ?case by simp
next
  case (Cons a "is")
  have "fold (\<lambda>i m. m[f i := True]) (a # is) m ! pos =
          fold (\<lambda>i m. m[f i := True]) is (m[f a := True]) ! pos"
    by simp
  also have "\<dots> = (m[f a := True] ! pos \<or> pos \<in> f ` set is)"
    using Cons.prems by (intro Cons.IH) simp
  also have "\<dots> = (m ! pos \<or> pos \<in> f ` set (a # is))"
    using Cons.prems by (cases "f a < length m") (auto simp: nth_list_update list_update_beyond)
  finally show ?case .
qed

lemma emplace_dims [simp]:
  "bin_count (emplace rd h b ibf) = bin_count ibf"
  "bin_size (emplace rd h b ibf) = bin_size ibf"
  "hash_function_count (emplace rd h b ibf) = hash_function_count ibf"
  "length (bits (emplace rd h b ibf)) = length (bits ibf)"
  by (simp_all add: emplace_def fold_update_True_length)

lemma bit_offset_emplace [simp]:
  "bit_offset rd (emplace rd' h' b' ibf) i h b = bit_offset rd ibf i h b"
  by (simp add: bit_offset_def)

lemma set_bits_emplace:
  "set_bits (emplace rd h b ibf) =
     set_bits ibf \<union> {pos. pos < length (bits ibf) \<and>
                        (\<exists>i < hash_function_count ibf. pos = bit_offset rd ibf i h b)}"
proof -
  have "bits (emplace rd h b ibf) ! pos =
          (bits ibf ! pos \<or> (\<exists>i < hash_function_count ibf. pos = bit_offset rd ibf i h b))"
    if "pos < length (bits ibf)" for pos
    using that by (auto simp: emplace_def fold_update_True_nth)
  then show ?thesis
    by (auto simp: set_bits_def)
qed

lemma fold_emplace_dims [simp]:
  "bin_count (fold (\<lambda>h. emplace rd h b) hs ibf) = bin_count ibf"
  "bin_size (fold (\<lambda>h. emplace rd h b) hs ibf) = bin_size ibf"
  "hash_function_count (fold (\<lambda>h. emplace rd h b) hs ibf) = hash_function_count ibf"
  "length (bits (fold (\<lambda>h. emplace rd h b) hs ibf)) = length (bits ibf)"
  by (induction hs arbitrary: ibf) simp_all

lemma bit_offset_cong:
  "bin_count x = bin_count y \<Longrightarrow> bin_size x = bin_size y \<Longrightarrow>
   bit_offset rd x i h b = bit_offset rd y i h b"
  by (simp add: bit_offset_def)

lemma set_bits_fold_emplace:
  "set_bits (fold (\<lambda>h. emplace rd h b) hs ibf) =
     set_bits ibf \<union> {pos. pos < length (bits ibf) \<and>
                        (\<exists>h \<in> set hs. \<exists>i < hash_function_count ibf. pos = bit_offset rd ibf i h b)}"
proof (induction hs arbitrary: ibf)
  case Nil
  then show ?case by simp
next
  case (Cons x hs)
  have "bit_offset rd (emplace rd x b ibf) i h b = bit_offset rd ibf i h b" for i h
    by simp
  then show ?case
    by (simp add: Cons.IH set_bits_emplace) blast
qed

lemma ibf_eqI:
  fixes x y :: interleaved_bloom_filter
  assumes "bin_count x = bin_count y" "bin_size x = bin_size y"
    "hash_function_count x = hash_function_count y"
    "length (bits x) = length (bits y)" "set_bits x = set_bits y"
  shows "x = y"
proof -
  have "bits x = bits y"
  proof (rule nth_equalityI)
    show "length (bits x) = length (bits y)" by fact
  next
    fix pos assume "pos < length (bits x)"
    then have "pos \<in> set_bits x \<longleftrightarrow> bits x ! pos" "pos \<in> set_bits y \<longleftrightarrow> bits y ! pos"
      using assms(4) by (simp_all add: set_bits_def)
    then show "bits x ! pos = bits y ! pos"
      using assms(5) by simp
  qed
  then show ?thesis
    using assms(1-3) by simp
qed

lemma set_schedule: "schedule n order \<Longrightarrow> set order = {..<n}"
  unfolding schedule_def using mset_eq_setD [of order "[0..<n]"]
  by (simp add: atLeast0LessThan)

lemma zipped_view_nth:
  "i < length bin_paths \<Longrightarrow> zip bin_paths [0..<length bin_paths] ! i = (bin_paths ! i, i)"
  by simp

lemma construct_worker_eq:
  "construct_worker rd arguments config part (bin_path arguments ! k, k) =
     fold (\<lambda>h. emplace rd h k) (bin_hashes arguments config part k)"
  by (rule ext)
     (simp add: construct_worker_def bin_hashes_def hash_into_def hash_into_if_def
           split: option.splits)

lemma call_parallel_on_bins_eq:
  assumes "\<forall>i \<in> set order. i < length bin_paths"
  shows "call_parallel_on_bins order work bin_paths st =
           fold (\<lambda>i. work (bin_paths ! i, i)) order st"
  unfolding call_parallel_on_bins_def Let_def
  using assms by (intro fold_cong refl) (simp add: zipped_view_nth)

lemma construct_eq:
  assumes "\<forall>i \<in> set order. i < length (bin_path arguments)"
  shows "construct rd order arguments config part =
           fold (\<lambda>k. fold (\<lambda>h. emplace rd h k) (bin_hashes arguments config part k)) order
             (raptor_index arguments)"
  unfolding construct_def Let_def
  by (simp add: call_parallel_on_bins_eq [OF assms] construct_worker_eq)

lemma fold_bins_dims [simp]:
  "bin_count (fold (\<lambda>k. fold (\<lambda>h. emplace rd h k) (hs k)) ks ibf) = bin_count ibf"
  "bin_size (fold (\<lambda>k. fold (\<lambda>h. emplace rd h k) (hs k)) ks ibf) = bin_size ibf"
  "hash_function_count (fold (\<lambda>k. fold (\<lambda>h. emplace rd h k) (hs k)) ks ibf)
     = hash_function_count ibf"
  "length (bits (fold (\<lambda>k. fold (\<lambda>h. emplace rd h k) (hs k)) ks ibf)) = length (bits ibf)"
  by (induction ks arbitrary: ibf) simp_all

lemma set_bits_fold_bins:
  "set_bits (fold (\<lambda>k. fold (\<lambda>h. emplace rd h k) (hs k)) ks ibf) =
     set_bits ibf \<union> {pos. pos < length (bits ibf) \<and>
        (\<exists>k \<in> set ks. \<exists>h \<in> set (hs k). \<exists>i < hash_function_count ibf.
            pos = bit_offset rd ibf i h k)}"
proof (induction ks arbitrary: ibf)
  case Nil
  then show ?case by simp
next
  case (Cons k ks)
  let ?x = "fold (\<lambda>h. emplace rd h k) (hs k) ibf"
  have off: "bit_offset rd ?x i h b = bit_offset rd ibf i h b" for i h b
    by (rule bit_offset_cong) simp_all
  show ?case
    by (simp add: Cons.IH set_bits_fold_emplace off) blast
qed

lemma raptor_index_dims [simp]:
  "bin_count (raptor_index arguments) = round_up_64 (length (bin_path arguments))"
  "bin_size (raptor_index arguments) = ibf_bin_size arguments"
  "hash_function_count (raptor_index arguments) = hash arguments"
  "length (bits (raptor_index arguments))
     = ibf_bin_size arguments * round_up_64 (length (bin_path arguments))"
  by (simp_all add: raptor_index_def ibf_new_def)

lemma set_bits_raptor_index [simp]: "set_bits (raptor_index arguments) = {}"
  by (simp add: set_bits_def raptor_index_def ibf_new_def)

lemma construct_dims:
  assumes "schedule (length (bin_path arguments)) order"
  shows "bin_count (construct rd order arguments config part)
           = round_up_64 (length (bin_path arguments))"
    and "bin_size (construct rd order arguments config part) = ibf_bin_size arguments"
    and "hash_function_count (construct rd order arguments config part) = hash arguments"
    and "length (bits (construct rd order arguments config part))
           = ibf_bin_size arguments * round_up_64 (length (bin_path arguments))"
  using set_schedule [OF assms] by (simp_all add: construct_eq)

lemma set_bits_construct:
  assumes "schedule (length (bin_path arguments)) order"
  shows "set_bits (construct rd order arguments config part) =
           {pos. pos < ibf_bin_size arguments * round_up_64 (length (bin_path arguments)) \<and>
              (\<exists>k < length (bin_path arguments). \<exists>h \<in> set (bin_hashes arguments config part k).
                 \<exists>i < hash arguments.
                   pos = (rd i h mod ibf_bin_size arguments)
                           * round_up_64 (length (bin_path arguments)) + k)}"
  using set_schedule [OF assms]
  by (simp add: construct_eq set_bits_fold_bins bit_offset_def) blast

lemma construct_schedule_independent:
  assumes "schedule (length (bin_path arguments)) order1"
    and "schedule (length (bin_path arguments)) order2"
  shows "construct rd order1 arguments config part = construct rd order2 arguments config part"
  by (rule ibf_eqI)
     (simp_all add: construct_dims [OF assms(1)] construct_dims [OF assms(2)]
        set_bits_construct [OF assms(1)] set_bits_construct [OF assms(2)])

lemma round_up_64_ge: "n \<le> round_up_64 n"
  unfolding round_up_64_def by presburger

lemma bit_offset_in_range:
  assumes "0 < bin_size x" "b < bin_count x"
  shows "bit_offset rd x i h b < bin_size x * bin_count x"
proof -
  have "rd i h mod bin_size x < bin_size x"
    using assms(1) by simp
  then have "Suc (rd i h mod bin_size x) \<le> bin_size x" by simp
  then have "Suc (rd i h mod bin_size x) * bin_count x \<le> bin_size x * bin_count x"
    by (rule mult_le_mono1)
  moreover have "bit_offset rd x i h b < Suc (rd i h mod bin_size x) * bin_count x"
    using assms(2) by (simp add: bit_offset_def)
  ultimately show ?thesis by simp
qed

lemma may_contain_iff:
  assumes "length (bits x) = bin_size x * bin_count x" "0 < bin_size x" "b < bin_count x"
  shows "may_contain rd x h b \<longleftrightarrow>
           (\<forall>i < hash_function_count x. bit_offset rd x i h b \<in> set_bits x)"
  using bit_offset_in_range [OF assms(2,3), of rd _ h] assms(1)
  by (auto simp: may_contain_def list_all_iff set_bits_def)

lemma offset_mod_div:
  fixes r B k :: nat
  assumes "k < B"
  shows "(r * B + k) mod B = k" and "(r * B + k) div B = r"
  using assms by auto

lemma construct_may_contain:
  assumes "schedule (length (bin_path arguments)) order" "0 < ibf_bin_size arguments"
    and "k < length (bin_path arguments)" "h \<in> set (bin_hashes arguments config part k)"
  shows "may_contain rd (construct rd order arguments config part) h k"
proof -
  let ?x = "construct rd order arguments config part"
  have kB: "k < round_up_64 (length (bin_path arguments))"
    using assms(3) round_up_64_ge [of "length (bin_path arguments)"] by simp
  have "bit_offset rd ?x i h k \<in> set_bits ?x" if "i < hash arguments" for i
    using that assms(3,4) bit_offset_in_range [of ?x k rd i h] kB assms(2)
    by (simp add: set_bits_construct [OF assms(1)] construct_dims [OF assms(1)])
       (auto simp: bit_offset_def construct_dims [OF assms(1)])
  then show ?thesis
    using kB assms(2)
    by (subst may_contain_iff) (simp_all add: construct_dims [OF assms(1)])
qed

lemma construct_set_bits_column:
  assumes "schedule (length (bin_path arguments)) order"
    and "pos \<in> set_bits (construct rd order arguments config part)"
  shows "pos mod round_up_64 (length (bin_path arguments)) < length (bin_path arguments)
       \<and> (\<exists>h \<in> set (bin_hashes arguments config part
                        (pos mod round_up_64 (length (bin_path arguments)))).
            \<exists>i < hash arguments.
              pos div round_up_64 (length (bin_path arguments))
                = rd i h mod ibf_bin_size arguments)"
proof -
  let ?B = "round_up_64 (length (bin_path arguments))"
  from assms(2) obtain k h i where
    k: "k < length (bin_path arguments)" and h: "h \<in> set (bin_hashes arguments config part k)"
    and i: "i < hash arguments" and pos: "pos = (rd i h mod ibf_bin_size arguments) * ?B + k"
    unfolding set_bits_construct [OF assms(1)] by blast
  have kB: "k < ?B"
    using k round_up_64_ge [of "length (bin_path arguments)"] by simp
  have "pos mod ?B = k" "pos div ?B = rd i h mod ibf_bin_size arguments"
    unfolding pos using offset_mod_div [OF kB] by simp_all
  then show ?thesis
    using k h i by auto
qed

section \<open>The flat build\<close>

lemma call_parallel_on_bins_in_order:
  "call_parallel_on_bins [0..<length bin_paths] work bin_paths st =
     fold work (zip bin_paths [0..<length bin_paths]) st"
proof -
  let ?z = "zip bin_paths [0..<length bin_paths]"
  have "fold (\<lambda>i. work (?z ! i)) [0..<length ?z] st = fold work (map (\<lambda>i. ?z ! i) [0..<length ?z]) st"
    by (simp add: fold_map comp_def)
  also have "\<dots> = fold work ?z st"
    by (simp only: map_nth)
  finally show ?thesis
    by (simp add: call_parallel_on_bins_def)
qed

text \<open>
  Claim C9. In a flat build (no partition configuration) the worker is invoked, by the
  loop as written, once for every position \<open>i\<close> of the bin path list, on the pair of
  entry \<open>i\<close> and the number \<open>i\<close>, and inserts every hash read from the files of its entry
  into the bin of that number. Whatever the order in which the iterations are taken,
  every hash of entry \<open>k\<close> is then found in bin \<open>k\<close> of the filter, and every bit that is
  set lies in the column of a bin \<open>k\<close> below the number of entries and comes from a hash
  of the files of entry \<open>k\<close>.
\<close>

theorem flat_build_bin_numbers:
  assumes "schedule (length (bin_path arguments)) order" and "0 < ibf_bin_size arguments"
  shows "call_parallel_on_bins [0..<length bin_paths] work bin_paths st =
           fold work (zip bin_paths [0..<length bin_paths]) st
       \<and> (\<forall>i < length bin_paths. zip bin_paths [0..<length bin_paths] ! i = (bin_paths ! i, i))
       \<and> construct_worker rd arguments None part (file_names, bin_number) ibf =
           fold (\<lambda>h. emplace rd h bin_number) (reader arguments file_names) ibf
       \<and> (\<forall>k < length (bin_path arguments).
            \<forall>h \<in> set (reader arguments (bin_path arguments ! k)).
              may_contain rd (construct rd order arguments None part) h k)
       \<and> (\<forall>pos \<in> set_bits (construct rd order arguments None part).
            pos mod round_up_64 (length (bin_path arguments)) < length (bin_path arguments)
          \<and> (\<exists>h \<in> set (reader arguments
                           (bin_path arguments ! (pos mod round_up_64 (length (bin_path arguments))))).
               \<exists>i < hash arguments.
                 pos div round_up_64 (length (bin_path arguments))
                   = rd i h mod ibf_bin_size arguments))"
proof -
  have "construct_worker rd arguments None part (file_names, bin_number) ibf =
           fold (\<lambda>h. emplace rd h bin_number) (reader arguments file_names) ibf"
    by (simp add: construct_worker_def hash_into_def)
  moreover have "\<forall>k < length (bin_path arguments).
            \<forall>h \<in> set (reader arguments (bin_path arguments ! k)).
              may_contain rd (construct rd order arguments None part) h k"
    using construct_may_contain [OF assms, of _ _ None part rd]
    by (simp add: bin_hashes_def)
  moreover have "\<forall>pos \<in> set_bits (construct rd order arguments None part).
            pos mod round_up_64 (length (bin_path arguments)) < length (bin_path arguments)
          \<and> (\<exists>h \<in> set (reader arguments
                           (bin_path arguments ! (pos mod round_up_64 (length (bin_path arguments))))).
               \<exists>i < hash arguments.
                 pos div round_up_64 (length (bin_path arguments))
                   = rd i h mod ibf_bin_size arguments)"
    using construct_set_bits_column [OF assms(1), of _ rd None part]
    by (simp add: bin_hashes_def)
  ultimately show ?thesis
    using call_parallel_on_bins_in_order [of bin_paths work st]
    by (simp add: zipped_view_nth)
qed

theorem flat_build_bin_numbers_witness:
  "schedule (length (bin_path example_build_arguments)) [1, 0]
   \<and> 0 < ibf_bin_size example_build_arguments
   \<and> 1 < length (bin_path example_build_arguments)
   \<and> 5 \<in> set (reader example_build_arguments (bin_path example_build_arguments ! 1))
   \<and> may_contain example_rd (construct example_rd [1, 0] example_build_arguments None 0) 5 1
   \<and> \<not> may_contain example_rd (construct example_rd [1, 0] example_build_arguments None 0) 5 0"
proof -
  have s: "schedule (length (bin_path example_build_arguments)) [1, 0]"
    by (simp add: schedule_def example_build_arguments_def)
  have n: "0 < ibf_bin_size example_build_arguments"
    by (simp add: example_build_arguments_def)
  have k: "1 < length (bin_path example_build_arguments)"
    and h: "5 \<in> set (reader example_build_arguments (bin_path example_build_arguments ! 1))"
    by (simp_all add: example_build_arguments_def)
  note bins = flat_build_bin_numbers [OF s n, where rd = example_rd and part = 0
      and bin_paths = "[]" and work = "\<lambda>z s. s" and st = "()" and file_names = "[]"
      and bin_number = 0 and ibf = example_flat,
      THEN conjunct2, THEN conjunct2, THEN conjunct2, THEN conjunct1]
  from bins k h
  have "may_contain example_rd (construct example_rd [1, 0] example_build_arguments None 0) 5 1"
    by blast
  moreover
  have "\<not> may_contain example_rd (construct example_rd [1, 0] example_build_arguments None 0) 5 0"
    by code_simp
  ultimately show ?thesis
    using s n k h by simp
qed

section \<open>The flat search under different schedules\<close>

lemma mset_do_parallel_worker:
  assumes "schedule (length records) order"
  shows "mset (do_parallel order (worker rd arguments index records) out) =
           mset out + image_mset (record_line rd arguments index) (mset records)"
  using schedule_image_mset [OF assms, of "record_line rd arguments index"]
  by (simp add: do_parallel_worker)

lemma singular_chunks_schedule_independent:
  assumes "\<forall>k n. schedule n (sched1 k n)" and "\<forall>k n. schedule n (sched2 k n)"
    and "mset out1 = mset out2"
  shows "mset (synced_out (singular_chunks rd shuffle sched1 arguments k chunks fut hw out1)) =
         mset (synced_out (singular_chunks rd shuffle sched2 arguments k chunks fut hw out2))
       \<and> failure (singular_chunks rd shuffle sched1 arguments k chunks fut hw out1) =
         failure (singular_chunks rd shuffle sched2 arguments k chunks fut hw out2)
       \<and> header_written (singular_chunks rd shuffle sched1 arguments k chunks fut hw out1) =
         header_written (singular_chunks rd shuffle sched2 arguments k chunks fut hw out2)"
  using assms(3)
proof (induction chunks arbitrary: k fut hw out1 out2)
  case Nil
  then show ?case by simp
next
  case (Cons c chunks)
  show ?case
  proof (cases fut)
    case None
    then show ?thesis using Cons.prems by simp
  next
    case (Some loaded)
    show ?thesis
    proof (cases loaded)
      case (Inl e)
      then show ?thesis using Some Cons.prems by simp
    next
      case (Inr index)
      let ?records = "shuffle 0 c"
      let ?o1 = "if hw then out1 else out1 @ [write_header index]"
      let ?o2 = "if hw then out2 else out2 @ [write_header index]"
      have "mset ?o1 = mset ?o2" using Cons.prems by simp
      then have "mset (do_parallel (sched1 k (length ?records))
                         (worker rd arguments index ?records) ?o1) =
                 mset (do_parallel (sched2 k (length ?records))
                         (worker rd arguments index ?records) ?o2)"
        using assms(1,2) by (simp only: mset_do_parallel_worker)
      from Cons.IH [OF this, of "Suc k" None True]
      show ?thesis
        by (simp add: Some Inr Let_def)
    qed
  qed
qed


section \<open>Determinism of build and query\<close>

lemma example_run_in_order:
  "synced_out (search_singular_ibf example_rd example_shuffle in_order example_search_arguments
                 (Inr (Ibf example_flat)) example_records False)
     = [Header 2, Result (''r2'' @ [tab] @ ''0,1'' @ [newline]),
        Result (''r1'' @ [tab] @ ''0'' @ [newline])]"
proof -
  have c: "chunk chunk_size example_records = [example_records]"
    by (rule chunk_short) (simp_all add: example_records_def chunk_size_def)
  have h: "write_header (Ibf example_flat) = Header 2"
    by code_simp
  have w: "do_parallel (in_order 0 (length (example_shuffle 0 example_records)))
             (worker example_rd example_search_arguments (Ibf example_flat)
                (example_shuffle 0 example_records)) [Header 2]
           = [Header 2, Result (''r2'' @ [tab] @ ''0,1'' @ [newline]),
              Result (''r1'' @ [tab] @ ''0'' @ [newline])]"
    by code_simp
  show ?thesis
    by (simp add: search_singular_ibf_def c Let_def h w)
qed

lemma example_first_run_flag:
  "header_written (search_singular_ibf example_rd example_shuffle in_order example_search_arguments
                 (Inr (Ibf example_flat)) example_records False)"
proof -
  have c: "chunk chunk_size example_records = [example_records]"
    by (rule chunk_short) (simp_all add: example_records_def chunk_size_def)
  show ?thesis
    by (simp add: search_singular_ibf_def c Let_def)
qed

lemma example_second_run:
  "synced_out (search_singular_ibf example_rd example_shuffle in_order example_search_arguments
                 (Inr (Ibf example_flat)) example_records True)
     = [Result (''r2'' @ [tab] @ ''0,1'' @ [newline]),
        Result (''r1'' @ [tab] @ ''0'' @ [newline])]"
proof -
  have c: "chunk chunk_size example_records = [example_records]"
    by (rule chunk_short) (simp_all add: example_records_def chunk_size_def)
  have w: "do_parallel (in_order 0 (length (example_shuffle 0 example_records)))
             (worker example_rd example_search_arguments (Ibf example_flat)
                (example_shuffle 0 example_records)) []
           = [Result (''r2'' @ [tab] @ ''0,1'' @ [newline]),
              Result (''r1'' @ [tab] @ ''0'' @ [newline])]"
    by code_simp
  show ?thesis
    by (simp add: search_singular_ibf_def c Let_def w)
qed

text \<open>
  Claim C3, as stated, fails for the query: two runs over the same index and the same
  query file do not write the same multiset of output lines when they are runs of one
  process. The header flag is a function-local static (see claim C7): the first run writes
  the header and the two record lines, the second run, which starts with the flag that the
  first run left, writes the two record lines only.
\<close>

theorem query_runs_differ_counterexample:
  "mset (synced_out (search_singular_ibf example_rd example_shuffle in_order
           example_search_arguments (Inr (Ibf example_flat)) example_records False))
     = {#Header 2, Result (''r2'' @ [tab] @ ''0,1'' @ [newline]),
         Result (''r1'' @ [tab] @ ''0'' @ [newline])#}
   \<and> mset (synced_out (search_singular_ibf example_rd example_shuffle in_order
           example_search_arguments (Inr (Ibf example_flat)) example_records
           (header_written
              (search_singular_ibf example_rd example_shuffle in_order
                 example_search_arguments (Inr (Ibf example_flat)) example_records False))))
     = {#Result (''r2'' @ [tab] @ ''0,1'' @ [newline]),
         Result (''r1'' @ [tab] @ ''0'' @ [newline])#}
   \<and> mset (synced_out (search_singular_ibf example_rd example_shuffle in_order
           example_search_arguments (Inr (Ibf example_flat)) example_records False))
     \<noteq> mset (synced_out (search_singular_ibf example_rd example_shuffle in_order
           example_search_arguments (Inr (Ibf example_flat)) example_records
           (header_written
              (search_singular_ibf example_rd example_shuffle in_order
                 example_search_arguments (Inr (Ibf example_flat)) example_records False))))"
  using example_first_run_flag by (simp add: example_run_in_order example_second_run)

text \<open>
  Claim C3, amended. Between two runs on the same arguments and files that start from the
  same state of the header flag, the thread schedule is the only input that differs: the
  order in which the iterations over the bins, and over the records of each chunk, are
  taken. Whatever the two orders, the build gives the same filter, bit for bit, with or
  without a partition configuration; and the flat search on the same index and query file,
  whose chunks are shuffled by the same generator with the seed 0 in both runs, writes
  the same multiset of outputs, ends with the same failure or none, and leaves the same
  header flag.
\<close>

theorem build_and_query_deterministic:
  assumes "schedule (length (bin_path build_args)) order1"
    and "schedule (length (bin_path build_args)) order2"
    and "\<forall>k n. schedule n (sched1 k n)" and "\<forall>k n. schedule n (sched2 k n)"
  shows "construct rd order1 build_args config part = construct rd order2 build_args config part
       \<and> mset (synced_out (search_singular_ibf rd shuffle sched1 arguments loaded query_file hw)) =
         mset (synced_out (search_singular_ibf rd shuffle sched2 arguments loaded query_file hw))
       \<and> failure (search_singular_ibf rd shuffle sched1 arguments loaded query_file hw) =
         failure (search_singular_ibf rd shuffle sched2 arguments loaded query_file hw)
       \<and> header_written (search_singular_ibf rd shuffle sched1 arguments loaded query_file hw) =
         header_written (search_singular_ibf rd shuffle sched2 arguments loaded query_file hw)"
  using construct_schedule_independent [OF assms(1,2), of rd config part]
    singular_chunks_schedule_independent [OF assms(3,4) refl,
      of rd shuffle arguments 0 "chunk chunk_size query_file" "Some loaded" hw "[]"]
  by (simp only: search_singular_ibf_def)

theorem build_and_query_deterministic_witness:
  "schedule (length (bin_path example_build_arguments)) [0, 1]
   \<and> schedule (length (bin_path example_build_arguments)) [1, 0]
   \<and> (\<forall>k n. schedule n (in_order k n))
   \<and> (\<forall>k n. schedule n (backwards k n))
   \<and> construct example_rd [0, 1] example_build_arguments None 0
       = construct example_rd [1, 0] example_build_arguments None 0
   \<and> synced_out (search_singular_ibf example_rd example_shuffle in_order example_search_arguments
                 (Inr (Ibf example_flat)) example_records False)
       = [Header 2, Result (''r2'' @ [tab] @ ''0,1'' @ [newline]),
          Result (''r1'' @ [tab] @ ''0'' @ [newline])]
   \<and> mset (synced_out (search_singular_ibf example_rd example_shuffle backwards
                 example_search_arguments (Inr (Ibf example_flat)) example_records False))
       = {#Header 2, Result (''r2'' @ [tab] @ ''0,1'' @ [newline]),
           Result (''r1'' @ [tab] @ ''0'' @ [newline])#}"
proof -
  have s1: "schedule (length (bin_path example_build_arguments)) [0, 1]"
    and s2: "schedule (length (bin_path example_build_arguments)) [1, 0]"
    by (simp_all add: schedule_def example_build_arguments_def)
  have s3: "\<forall>k n. schedule n (in_order k n)"
    and s4: "\<forall>k n. schedule n (backwards k n)"
    by (simp_all add: schedule_def in_order_def backwards_def)
  note det = build_and_query_deterministic [OF s1 s2 s3 s4, where rd = example_rd
      and config = None and part = 0 and shuffle = example_shuffle
      and arguments = example_search_arguments and loaded = "Inr (Ibf example_flat)"
      and query_file = example_records and hw = False]
  from det have b: "construct example_rd [0, 1] example_build_arguments None 0
       = construct example_rd [1, 0] example_build_arguments None 0"
    by (rule conjunct1)
  from det have "mset (synced_out (search_singular_ibf example_rd example_shuffle backwards
                 example_search_arguments (Inr (Ibf example_flat)) example_records False))
      = mset (synced_out (search_singular_ibf example_rd example_shuffle in_order
                 example_search_arguments (Inr (Ibf example_flat)) example_records False))"
    by simp
  then have m: "mset (synced_out (search_singular_ibf example_rd example_shuffle backwards
                 example_search_arguments (Inr (Ibf example_flat)) example_records False))
       = {#Header 2, Result (''r2'' @ [tab] @ ''0,1'' @ [newline]),
           Result (''r1'' @ [tab] @ ''0'' @ [newline])#}"
    by (simp add: example_run_in_order)
  show ?thesis
    using s1 s2 s3 s4 b m example_run_in_order by simp
qed

section \<open>The header\<close>

lemma is_result_record_line [simp]: "is_result (record_line rd arguments index r)"
  by (simp add: record_line_def)

lemma do_parallel_results:
  "\<exists>lines. do_parallel order (worker rd arguments index records) out = out @ lines
           \<and> list_all is_result lines"
  by (simp add: do_parallel_worker list_all_iff)

lemma singular_chunks_header_set:
  "(\<exists>lines. synced_out (singular_chunks rd shuffle sched arguments k chunks fut True out)
             = out @ lines \<and> list_all is_result lines)
   \<and> header_written (singular_chunks rd shuffle sched arguments k chunks fut True out)"
proof (induction chunks arbitrary: k fut out)
  case Nil
  then show ?case by simp
next
  case (Cons c chunks)
  show ?case
  proof (cases fut)
    case None
    then show ?thesis by simp
  next
    case (Some loaded)
    show ?thesis
    proof (cases loaded)
      case (Inl e)
      then show ?thesis using Some by simp
    next
      case (Inr index)
      obtain l1 where l1: "do_parallel (sched k (length (shuffle 0 c)))
                             (worker rd arguments index (shuffle 0 c)) out = out @ l1"
                        "list_all is_result l1"
        using do_parallel_results by blast
      obtain l2 where l2: "synced_out (singular_chunks rd shuffle sched arguments (Suc k) chunks
                              None True (out @ l1)) = (out @ l1) @ l2"
                        "list_all is_result l2"
        using Cons.IH by blast
      have "header_written (singular_chunks rd shuffle sched arguments (Suc k) chunks
                              None True (out @ l1))"
        using Cons.IH by blast
      then show ?thesis
        using l1 l2 by (simp add: Some Inr Let_def)
    qed
  qed
qed

lemma singular_chunks_first_chunk:
  "(\<exists>lines. synced_out (singular_chunks rd shuffle sched arguments k (c # chunks)
                         (Some (Inr index)) False out)
             = out @ write_header index # lines \<and> list_all is_result lines)
   \<and> header_written (singular_chunks rd shuffle sched arguments k (c # chunks)
                         (Some (Inr index)) False out)"
proof -
  obtain l1 where l1: "do_parallel (sched k (length (shuffle 0 c)))
                         (worker rd arguments index (shuffle 0 c)) (out @ [write_header index])
                       = (out @ [write_header index]) @ l1"
                    "list_all is_result l1"
    using do_parallel_results by blast
  obtain l2 where l2: "synced_out (singular_chunks rd shuffle sched arguments (Suc k) chunks
                          None True ((out @ [write_header index]) @ l1))
                       = ((out @ [write_header index]) @ l1) @ l2"
                    "list_all is_result l2"
    using singular_chunks_header_set by blast
  have "header_written (singular_chunks rd shuffle sched arguments (Suc k) chunks
                          None True ((out @ [write_header index]) @ l1))"
    using singular_chunks_header_set by blast
  then show ?thesis
    using l1 l2 by (simp add: Let_def)
qed

lemma output_statements_results:
  "\<forall>stmt \<in> set (output_statements rd arguments ibf records part i). appends_results stmt"
  by (cases "records ! i") (simp add: output_statements_def appends_results_def)

lemma statements_results:
  "\<forall>stmt \<in> set program. appends_results stmt \<Longrightarrow>
   \<exists>lines. s_out (snd (fold (\<lambda>stmt ps. stmt ps) program (p, s))) = s_out s @ lines
           \<and> list_all is_result lines"
proof (induction program arbitrary: p s)
  case Nil
  then show ?case by simp
next
  case (Cons stmt program)
  obtain p1 s1 where 1: "stmt (p, s) = (p1, s1)"
    by (cases "stmt (p, s)")
  from Cons.prems have "appends_results stmt" by simp
  then obtain l1 where l1: "s_out s1 = s_out s @ l1" "list_all is_result l1"
    unfolding appends_results_def using 1 by (metis snd_conv)
  from Cons.prems have "\<forall>stmt \<in> set program. appends_results stmt" by simp
  from Cons.IH [OF this, of p1 s1]
  obtain l2 where l2: "s_out (snd (fold (\<lambda>stmt ps. stmt ps) program (p1, s1))) = s_out s1 @ l2"
                     "list_all is_result l2"
    by blast
  show ?case
    using l1 l2 by (simp add: 1)
qed

lemma run_to_end_results:
  "\<forall>stmt \<in> set (fst th). appends_results stmt \<Longrightarrow>
   \<exists>lines. s_out (run_to_end th s) = s_out s @ lines \<and> list_all is_result lines"
  using statements_results [of "fst th" "snd th" s] by (simp add: run_to_end_def)

lemma fold_run_to_end_results:
  "\<forall>th \<in> set threads. \<forall>stmt \<in> set (fst th). appends_results stmt \<Longrightarrow>
   \<exists>lines. s_out (fold run_to_end threads s) = s_out s @ lines \<and> list_all is_result lines"
proof (induction threads arbitrary: s)
  case Nil
  then show ?case by simp
next
  case (Cons th threads)
  from Cons.prems obtain l1 where l1: "s_out (run_to_end th s) = s_out s @ l1"
                                    "list_all is_result l1"
    using run_to_end_results [of th s] by auto
  from Cons.prems have "\<forall>th \<in> set threads. \<forall>stmt \<in> set (fst th). appends_results stmt"
    by simp
  from Cons.IH [OF this, of "run_to_end th s"]
  obtain l2 where l2: "s_out (fold run_to_end threads (run_to_end th s))
                         = s_out (run_to_end th s) @ l2" "list_all is_result l2"
    by blast
  show ?case
    using l1 l2 by simp
qed

lemma run_threads_results:
  "\<forall>th \<in> set threads. \<forall>stmt \<in> set (fst th). appends_results stmt \<Longrightarrow>
   \<exists>threads' s' lines. run_threads interleaving threads s = (threads', s')
      \<and> (\<forall>th \<in> set threads'. \<forall>stmt \<in> set (fst th). appends_results stmt)
      \<and> s_out s' = s_out s @ lines \<and> list_all is_result lines"
proof (induction interleaving arbitrary: threads s)
  case Nil
  then show ?case by simp
next
  case (Cons t interleaving)
  show ?case
  proof (cases "t < length threads")
    case False
    then show ?thesis using Cons.IH [OF Cons.prems, of s] by simp
  next
    case True
    obtain program p where th: "threads ! t = (program, p)"
      by (cases "threads ! t")
    show ?thesis
    proof (cases program)
      case Nil
      then show ?thesis using Cons.IH [OF Cons.prems, of s] True th by simp
    next
      case (Cons stmt program')
      have mem: "(stmt # program', p) \<in> set threads"
        using True th Cons nth_mem [of t threads] by simp
      then have good: "appends_results stmt" "\<forall>stmt \<in> set program'. appends_results stmt"
        using Cons.prems by fastforce+
      obtain p1 s1 where 1: "stmt (p, s) = (p1, s1)"
        by (cases "stmt (p, s)")
      obtain l1 where l1: "s_out s1 = s_out s @ l1" "list_all is_result l1"
        using good(1) 1 unfolding appends_results_def by (metis snd_conv)
      have "\<forall>th \<in> set (threads[t := (program', p1)]). \<forall>stmt \<in> set (fst th). appends_results stmt"
        using Cons.prems good(2) set_update_subset_insert [of threads t "(program', p1)"]
        by fastforce
      from Cons.IH [OF this, of s1]
      obtain threads' s' l2 where 2:
        "run_threads interleaving (threads[t := (program', p1)]) s1 = (threads', s')"
        "\<forall>th \<in> set threads'. \<forall>stmt \<in> set (fst th). appends_results stmt"
        "s_out s' = s_out s1 @ l2" "list_all is_result l2"
        by blast
      show ?thesis
        using True th Cons 1 2 l1 by simp
    qed
  qed
qed

lemma parallel_for_results:
  assumes "\<forall>i. \<forall>stmt \<in> set (body i). appends_results stmt"
  shows "\<exists>lines. s_out (parallel_for body exec s) = s_out s @ lines \<and> list_all is_result lines"
proof -
  let ?threads = "map (\<lambda>iterations. (concat (map body iterations),
                                       \<lparr>p_minimiser_count = 0, p_threshold = 0\<rparr>)) (fst exec)"
  have "\<forall>th \<in> set ?threads. \<forall>stmt \<in> set (fst th). appends_results stmt"
    using assms by auto
  from run_threads_results [OF this, of "snd exec" s]
  obtain threads' s' l1 where 1: "run_threads (snd exec) ?threads s = (threads', s')"
    "\<forall>th \<in> set threads'. \<forall>stmt \<in> set (fst th). appends_results stmt"
    "s_out s' = s_out s @ l1" "list_all is_result l1"
    by blast
  from fold_run_to_end_results [OF 1(2), of s']
  obtain l2 where 2: "s_out (fold run_to_end threads' s') = s_out s' @ l2" "list_all is_result l2"
    by blast
  show ?thesis
    using 1 2 by (simp add: parallel_for_def)
qed

lemma output_task_results:
  "\<exists>lines. output_task rd arguments ibf records part exec counts out = out @ lines
           \<and> list_all is_result lines"
  using parallel_for_results [of "output_statements rd arguments ibf records part" exec
      "\<lparr>s_counts = counts, s_counter_id = 0, s_minimiser = [],
        s_result_string = [], s_out = out\<rparr>"]
    output_statements_results [of rd arguments ibf records part]
  by (simp add: output_task_def)

lemma partitioned_chunk_results:
  "partitioned_chunk rd arguments omp ibf0 records out = Inr out' \<Longrightarrow>
   \<exists>lines. out' = out @ lines \<and> list_all is_result lines"
  by (auto simp: partitioned_chunk_def Let_def output_task_results
           split: sum.splits prod.splits if_splits)

lemma partitioned_chunks_header_set:
  "(\<exists>lines. synced_out (partitioned_chunks rd shuffle omp arguments k chunks True out)
             = out @ lines \<and> list_all is_result lines)
   \<and> header_written (partitioned_chunks rd shuffle omp arguments k chunks True out)"
proof (induction chunks arbitrary: k out)
  case Nil
  then show ?case by simp
next
  case (Cons c chunks)
  show ?case
  proof (cases "load_index arguments 0")
    case (Inl e)
    then show ?thesis by simp
  next
    case (Inr ibf0)
    show ?thesis
    proof (cases "partitioned_chunk rd arguments (omp k) ibf0 (shuffle 0 c) out")
      case (Inl e)
      then show ?thesis using Inr by simp
    next
      case inr: (Inr out')
      obtain l1 where l1: "out' = out @ l1" "list_all is_result l1"
        using partitioned_chunk_results [OF inr] by blast
      obtain l2 where l2: "synced_out (partitioned_chunks rd shuffle omp arguments (Suc k) chunks
                               True out')
                             = out' @ l2" "list_all is_result l2"
        using Cons.IH by blast
      have "header_written (partitioned_chunks rd shuffle omp arguments (Suc k) chunks True out')"
        using Cons.IH by blast
      then show ?thesis
        using l1 l2 by (simp add: Inr inr)
    qed
  qed
qed

lemma partitioned_chunks_first_chunk:
  assumes "load_index arguments 0 = Inr ibf0"
  shows "(\<exists>lines. synced_out (partitioned_chunks rd shuffle omp arguments k (c # chunks) False out)
             = out @ Header (hash_function_count ibf0) # lines \<and> list_all is_result lines)
   \<and> header_written (partitioned_chunks rd shuffle omp arguments k (c # chunks) False out)"
proof (cases "partitioned_chunk rd arguments (omp k) ibf0 (shuffle 0 c)
                (out @ [Header (hash_function_count ibf0)])")
  case (Inl e)
  then show ?thesis using assms by simp
next
  case (Inr out')
  obtain l1 where l1: "out' = (out @ [Header (hash_function_count ibf0)]) @ l1"
                    "list_all is_result l1"
    using partitioned_chunk_results [OF Inr] by blast
  obtain l2 where l2: "synced_out (partitioned_chunks rd shuffle omp arguments (Suc k) chunks
                           True out')
                         = out' @ l2" "list_all is_result l2"
    using partitioned_chunks_header_set by blast
  have "header_written (partitioned_chunks rd shuffle omp arguments (Suc k) chunks True out')"
    using partitioned_chunks_header_set by blast
  then show ?thesis
    using l1 l2 assms by (simp add: Inr)
qed

text \<open>
  Claim C7, as stated, fails: the flag is a function-local static, so the second of two
  query runs in one process writes no header. Here the second run starts with the flag
  that the first run left.
\<close>

theorem header_per_run_counterexample:
  "synced_out (search_singular_ibf example_rd example_shuffle in_order example_search_arguments
                 (Inr (Ibf example_flat)) example_records
                 (header_written
                    (search_singular_ibf example_rd example_shuffle in_order
                       example_search_arguments (Inr (Ibf example_flat)) example_records False)))
     = [Result (''r2'' @ [tab] @ ''0,1'' @ [newline]),
        Result (''r1'' @ [tab] @ ''0'' @ [newline])]"
  using example_first_run_flag by (simp add: example_second_run)

text \<open>
  Claim C7, amended. Each search function writes the header at most once per process:
  started with the flag set, a run writes record lines only and leaves the flag set;
  started with the flag clear, a run on an empty query file writes nothing and leaves the
  flag clear, and a run on a non-empty query file whose index loads writes the header
  first, then record lines only, and sets the flag.
\<close>

theorem header_once_per_process:
  "(hw \<longrightarrow>
      list_all is_result
        (synced_out (search_singular_ibf rd shuffle sched arguments loaded query_file hw))
    \<and> header_written (search_singular_ibf rd shuffle sched arguments loaded query_file hw)
    \<and> list_all is_result
        (synced_out (search_partitioned_ibf rd shuffle omp arguments query_file hw))
    \<and> header_written (search_partitioned_ibf rd shuffle omp arguments query_file hw))
   \<and> (\<not> hw \<and> query_file = [] \<longrightarrow>
      synced_out (search_singular_ibf rd shuffle sched arguments loaded query_file hw) = []
    \<and> \<not> header_written (search_singular_ibf rd shuffle sched arguments loaded query_file hw)
    \<and> synced_out (search_partitioned_ibf rd shuffle omp arguments query_file hw) = []
    \<and> \<not> header_written (search_partitioned_ibf rd shuffle omp arguments query_file hw))
   \<and> (\<not> hw \<and> query_file \<noteq> [] \<and> loaded = Inr index \<longrightarrow>
      (\<exists>lines. synced_out (search_singular_ibf rd shuffle sched arguments loaded query_file hw)
                 = write_header index # lines \<and> list_all is_result lines)
    \<and> header_written (search_singular_ibf rd shuffle sched arguments loaded query_file hw))
   \<and> (\<not> hw \<and> query_file \<noteq> [] \<and> load_index arguments 0 = Inr first_ibf \<longrightarrow>
      (\<exists>lines. synced_out (search_partitioned_ibf rd shuffle omp arguments query_file hw)
                 = Header (hash_function_count first_ibf) # lines \<and> list_all is_result lines)
    \<and> header_written (search_partitioned_ibf rd shuffle omp arguments query_file hw))"
proof (intro conjI impI)
  assume hw
  then show "list_all is_result
        (synced_out (search_singular_ibf rd shuffle sched arguments loaded query_file hw))"
    and "header_written (search_singular_ibf rd shuffle sched arguments loaded query_file hw)"
    using singular_chunks_header_set
      [of rd shuffle sched arguments 0 "chunk chunk_size query_file" "Some loaded" "[]"]
    by (auto simp: search_singular_ibf_def)
  from \<open>hw\<close> show "list_all is_result
        (synced_out (search_partitioned_ibf rd shuffle omp arguments query_file hw))"
    and "header_written (search_partitioned_ibf rd shuffle omp arguments query_file hw)"
    using partitioned_chunks_header_set
      [of rd shuffle omp arguments 0 "chunk chunk_size query_file" "[]"]
    by (auto simp: search_partitioned_ibf_def)
next
  assume "\<not> hw \<and> query_file = []"
  then show "synced_out (search_singular_ibf rd shuffle sched arguments loaded query_file hw) = []"
    and "\<not> header_written (search_singular_ibf rd shuffle sched arguments loaded query_file hw)"
    and "synced_out (search_partitioned_ibf rd shuffle omp arguments query_file hw) = []"
    and "\<not> header_written (search_partitioned_ibf rd shuffle omp arguments query_file hw)"
    by (simp_all add: search_singular_ibf_def search_partitioned_ibf_def)
next
  assume a: "\<not> hw \<and> query_file \<noteq> [] \<and> loaded = Inr index"
  then have c: "chunk chunk_size query_file
                  = take chunk_size query_file # chunk chunk_size (drop chunk_size query_file)"
    by (simp add: chunk_Cons chunk_size_pos)
  from a show "\<exists>lines. synced_out (search_singular_ibf rd shuffle sched arguments loaded query_file hw)
                 = write_header index # lines \<and> list_all is_result lines"
    and "header_written (search_singular_ibf rd shuffle sched arguments loaded query_file hw)"
    using singular_chunks_first_chunk
      [of rd shuffle sched arguments 0 "take chunk_size query_file"
          "chunk chunk_size (drop chunk_size query_file)" index "[]"]
    unfolding search_singular_ibf_def c by auto
next
  assume a: "\<not> hw \<and> query_file \<noteq> [] \<and> load_index arguments 0 = Inr first_ibf"
  then have c: "chunk chunk_size query_file
                  = take chunk_size query_file # chunk chunk_size (drop chunk_size query_file)"
    by (simp add: chunk_Cons chunk_size_pos)
  from a show "\<exists>lines. synced_out (search_partitioned_ibf rd shuffle omp arguments query_file hw)
                 = Header (hash_function_count first_ibf) # lines \<and> list_all is_result lines"
    and "header_written (search_partitioned_ibf rd shuffle omp arguments query_file hw)"
    using partitioned_chunks_first_chunk
      [of arguments first_ibf rd shuffle omp 0 "take chunk_size query_file"
          "chunk chunk_size (drop chunk_size query_file)" "[]"]
    unfolding search_partitioned_ibf_def c by auto
qed

theorem header_once_per_process_witness:
  "example_records \<noteq> []
   \<and> load_index example_search_arguments 0 = Inr (example_partition 0)
   \<and> header_written (search_singular_ibf example_rd example_shuffle in_order
        example_search_arguments (Inr (Ibf example_flat)) example_records False)
   \<and> header_written (search_partitioned_ibf example_rd example_shuffle
        (\<lambda>k. overlapping_output) example_search_arguments example_records False)
   \<and> list_all is_result
        (synced_out (search_singular_ibf example_rd example_shuffle in_order
           example_search_arguments (Inr (Ibf example_flat)) example_records True))
   \<and> list_all is_result
        (synced_out (search_partitioned_ibf example_rd example_shuffle
           (\<lambda>k. overlapping_output) example_search_arguments example_records True))"
proof -
  have ne: "example_records \<noteq> []"
    by (simp add: example_records_def)
  have ld: "load_index example_search_arguments 0 = Inr (example_partition 0)"
    by (simp add: example_search_arguments_def)
  note first = header_once_per_process [where hw = False and query_file = example_records
      and rd = example_rd and shuffle = example_shuffle and sched = in_order
      and arguments = example_search_arguments and loaded = "Inr (Ibf example_flat)"
      and index = "Ibf example_flat" and first_ibf = "example_partition 0"
      and omp = "\<lambda>k. overlapping_output"]
  note later = header_once_per_process [where hw = True and query_file = example_records
      and rd = example_rd and shuffle = example_shuffle and sched = in_order
      and arguments = example_search_arguments and loaded = "Inr (Ibf example_flat)"
      and index = "Ibf example_flat" and first_ibf = "example_partition 0"
      and omp = "\<lambda>k. overlapping_output"]
  from first ne ld have
    "header_written (search_singular_ibf example_rd example_shuffle in_order
        example_search_arguments (Inr (Ibf example_flat)) example_records False)"
    "header_written (search_partitioned_ibf example_rd example_shuffle
        (\<lambda>k. overlapping_output) example_search_arguments example_records False)"
    by simp_all
  moreover from later have
    "list_all is_result
        (synced_out (search_singular_ibf example_rd example_shuffle in_order
           example_search_arguments (Inr (Ibf example_flat)) example_records True))"
    "list_all is_result
        (synced_out (search_partitioned_ibf example_rd example_shuffle
           (\<lambda>k. overlapping_output) example_search_arguments example_records True))"
    by simp_all
  ultimately show ?thesis
    using ne ld by simp
qed

section \<open>The counts of a filter\<close>

lemma length_stripe:
  assumes "wf_ibf x" "row < bin_size x"
  shows "length (stripe x row) = bin_count x"
proof -
  have "Suc row * bin_count x \<le> bin_size x * bin_count x"
    using assms(2) by (intro mult_le_mono1) simp
  then have "bin_count x \<le> length (bits x) - row * bin_count x"
    using assms(1) by (simp add: wf_ibf_def)
  then show ?thesis
    by (simp add: stripe_def)
qed

lemma nth_stripe:
  assumes "wf_ibf x" "row < bin_size x" "b < bin_count x"
  shows "stripe x row ! b = bits x ! (row * bin_count x + b)"
proof -
  have "Suc row * bin_count x \<le> bin_size x * bin_count x"
    using assms(2) by (intro mult_le_mono1) simp
  then have "row * bin_count x + b < length (bits x)"
    using assms(1,3) by (simp add: wf_ibf_def)
  then show ?thesis
    using assms(3) by (simp add: stripe_def)
qed

lemma fold_and_length:
  "length acc = n \<Longrightarrow> \<forall>i \<in> set is. length (s i) = n \<Longrightarrow>
   length (fold (\<lambda>i a. map2 (\<and>) a (s i)) is acc) = n"
  by (induction "is" arbitrary: acc) auto

lemma fold_and_nth:
  "length acc = n \<Longrightarrow> \<forall>i \<in> set is. length (s i) = n \<Longrightarrow> b < n \<Longrightarrow>
   fold (\<lambda>i a. map2 (\<and>) a (s i)) is acc ! b = (acc ! b \<and> (\<forall>i \<in> set is. s i ! b))"
proof (induction "is" arbitrary: acc)
  case Nil
  then show ?case by simp
next
  case (Cons i "is")
  have "fold (\<lambda>i a. map2 (\<and>) a (s i)) (i # is) acc ! b =
          fold (\<lambda>i a. map2 (\<and>) a (s i)) is (map2 (\<and>) acc (s i)) ! b"
    by simp
  also have "\<dots> = (map2 (\<and>) acc (s i) ! b \<and> (\<forall>i \<in> set is. s i ! b))"
    using Cons.prems by (intro Cons.IH) auto
  also have "\<dots> = (acc ! b \<and> (\<forall>j \<in> set (i # is). s j ! b))"
    using Cons.prems by auto
  finally show ?case .
qed

lemma length_bulk_contains:
  "wf_ibf x \<Longrightarrow> length (bulk_contains rd x h) = bin_count x"
  unfolding bulk_contains_def
  by (rule fold_and_length) (simp_all add: length_stripe wf_ibf_def)

lemma nth_bulk_contains:
  assumes "wf_ibf x" "b < bin_count x"
  shows "bulk_contains rd x h ! b = may_contain rd x h b"
proof -
  have "bulk_contains rd x h ! b =
          (replicate (bin_count x) True ! b \<and>
           (\<forall>i \<in> set [0..<hash_function_count x]. stripe x (rd i h mod bin_size x) ! b))"
    unfolding bulk_contains_def
    using assms by (intro fold_and_nth) (simp_all add: length_stripe wf_ibf_def)
  also have "\<dots> = may_contain rd x h b"
    using assms by (simp add: may_contain_def list_all_iff nth_stripe bit_offset_def wf_ibf_def)
  finally show ?thesis .
qed

lemma unat_sat_inc: "unat (sat_inc c) = min 65535 (unat c + 1)"
proof (cases "c = 0xFFFF")
  case True
  then show ?thesis by (simp add: sat_inc_def)
next
  case False
  then have "unat c \<noteq> 65535"
    by (simp add: word_unat_eq_iff)
  moreover have "unat c < 65536"
    using unsigned_less [of c, where ?'a = nat] by simp
  ultimately have "unat c + 1 < 65536" by simp
  then have "unat (c + 1) = unat c + 1"
    by (simp add: unat_word_ariths)
  then show ?thesis
    using False \<open>unat c + 1 < 65536\<close> by (simp add: sat_inc_def)
qed

lemma fold_count_length:
  "length counts = n \<Longrightarrow> \<forall>h. length (c h) = n \<Longrightarrow>
   length (fold (\<lambda>h counts. map2 (\<lambda>cnt bit. if bit then sat_inc cnt else cnt) counts (c h))
             hs counts) = n"
  by (induction hs arbitrary: counts) auto

lemma fold_count_nth:
  "length counts = n \<Longrightarrow> \<forall>h. length (c h) = n \<Longrightarrow> b < n \<Longrightarrow>
   unat (fold (\<lambda>h counts. map2 (\<lambda>cnt bit. if bit then sat_inc cnt else cnt) counts (c h))
             hs counts ! b)
     = min 65535 (unat (counts ! b) + length (filter (\<lambda>h. c h ! b) hs))"
proof (induction hs arbitrary: counts)
  case Nil
  have "unat (counts ! b) < 65536"
    using unsigned_less [of "counts ! b", where ?'a = nat] by simp
  then show ?case by simp
next
  case (Cons h hs)
  let ?step = "\<lambda>h counts. map2 (\<lambda>cnt bit. if bit then sat_inc cnt else cnt) counts (c h)"
  have len: "length (?step h counts) = n"
    using Cons.prems by simp
  have nth: "unat (?step h counts ! b) =
               (if c h ! b then min 65535 (unat (counts ! b) + 1) else unat (counts ! b))"
    using Cons.prems by (simp add: unat_sat_inc)
  have "unat (fold ?step (h # hs) counts ! b) = unat (fold ?step hs (?step h counts) ! b)"
    by simp
  also have "\<dots> = min 65535 (unat (?step h counts ! b) + length (filter (\<lambda>h. c h ! b) hs))"
    using len Cons.prems(2,3) by (rule Cons.IH)
  also have "\<dots> = min 65535 (unat (counts ! b) + length (filter (\<lambda>h. c h ! b) (h # hs)))"
    by (auto simp: nth min_def)
  finally show ?case .
qed

lemma length_bulk_count: "wf_ibf x \<Longrightarrow> length (bulk_count rd x hs) = bin_count x"
  unfolding bulk_count_def
  by (rule fold_count_length) (simp_all add: length_bulk_contains)

lemma unat_bulk_count:
  assumes "wf_ibf x" "b < bin_count x"
  shows "unat (bulk_count rd x hs ! b) = min 65535 (length (filter (\<lambda>h. may_contain rd x h b) hs))"
proof -
  have "unat (bulk_count rd x hs ! b) =
          min 65535 (unat (replicate (bin_count x) (0 :: u16) ! b)
                      + length (filter (\<lambda>h. bulk_contains rd x h ! b) hs))"
    unfolding bulk_count_def
    using assms by (intro fold_count_nth) (simp_all add: length_bulk_contains)
  then show ?thesis
    using assms by (simp add: nth_bulk_contains)
qed

lemma fold_add_length:
  "length acc = n \<Longrightarrow> \<forall>p \<in> set ps. length (v p) = n \<Longrightarrow>
   length (fold (\<lambda>p acc. counting_vector_add acc (v p)) ps acc) = n"
  by (induction ps arbitrary: acc) (auto simp: counting_vector_add_def)

lemma fold_add_nth:
  "length acc = n \<Longrightarrow> \<forall>p \<in> set ps. length (v p) = n \<Longrightarrow> b < n \<Longrightarrow>
   unat (fold (\<lambda>p acc. counting_vector_add acc (v p)) ps acc ! b)
     = (unat (acc ! b) + sum_list (map (\<lambda>p. unat (v p ! b)) ps)) mod 65536"
proof (induction ps arbitrary: acc)
  case Nil
  have "unat (acc ! b) < 65536"
    using unsigned_less [of "acc ! b", where ?'a = nat] by simp
  then show ?case by simp
next
  case (Cons p ps)
  let ?a = "counting_vector_add acc (v p)"
  have len: "length ?a = n"
    using Cons.prems by (simp add: counting_vector_add_def)
  have nth: "unat (?a ! b) = (unat (acc ! b) + unat (v p ! b)) mod 65536"
    using Cons.prems by (simp add: counting_vector_add_def unat_word_ariths)
  have "unat (fold (\<lambda>p acc. counting_vector_add acc (v p)) (p # ps) acc ! b) =
          unat (fold (\<lambda>p acc. counting_vector_add acc (v p)) ps ?a ! b)"
    by simp
  also have "\<dots> = (unat (?a ! b) + sum_list (map (\<lambda>p. unat (v p ! b)) ps)) mod 65536"
    using len Cons.prems by (intro Cons.IH) auto
  also have "\<dots> = (unat (acc ! b) + sum_list (map (\<lambda>p. unat (v p ! b)) (p # ps))) mod 65536"
    by (simp add: nth mod_simps add.assoc)
  finally show ?case .
qed

lemma sum_filter_partition:
  "sum_list (map (\<lambda>p. length (filter (\<lambda>h. Q p h) (filter (\<lambda>h. f h = p) xs))) [0..<n])
     = length (filter (\<lambda>h. f h < n \<and> Q (f h) h) xs)"
proof (induction n)
  case 0
  then show ?case by simp
next
  case (Suc n)
  have "length (filter (\<lambda>h. f h < Suc n \<and> Q (f h) h) xs) =
          length (filter (\<lambda>h. f h < n \<and> Q (f h) h) xs)
          + length (filter (\<lambda>h. Q n h) (filter (\<lambda>h. f h = n) xs))"
  proof (induction xs)
    case Nil
    then show ?case by simp
  next
    case (Cons x xs)
    then show ?case by (auto simp: less_Suc_eq)
  qed
  then show ?case
    using Suc by simp
qed

section \<open>Partitioned counts against flat counts\<close>

lemma wf_construct:
  assumes "schedule (length (bin_path arguments)) order" "0 < ibf_bin_size arguments"
  shows "wf_ibf (construct rd order arguments config part)"
  using assms(2) by (simp add: wf_ibf_def construct_dims [OF assms(1)])

lemma length_partition_counts:
  assumes "\<forall>p. wf_ibf (ibfs p) \<and> bin_count (ibfs p) = n"
  shows "length (partition_counts rd arguments ibfs seq) = n"
  unfolding partition_counts_def
  using assms by (intro fold_add_length) (simp_all add: length_bulk_count)

lemma unat_partition_counts:
  assumes ibfs: "\<forall>p. wf_ibf (ibfs p) \<and> bin_count (ibfs p) = n"
    and b: "b < n"
    and m: "length (hash_adaptor arguments seq) < 2 ^ 16"
  shows "unat (partition_counts rd arguments ibfs seq ! b) =
           length (filter (\<lambda>h. cfg_hash_partition arguments h < parts arguments
                                \<and> may_contain rd (ibfs (cfg_hash_partition arguments h)) h b)
                     (hash_adaptor arguments seq))"
proof -
  let ?mins = "hash_adaptor arguments seq"
  let ?hp = "cfg_hash_partition arguments"
  let ?t = "\<lambda>p. length (filter (\<lambda>h. may_contain rd (ibfs p) h b) (filter (\<lambda>h. ?hp h = p) ?mins))"
  let ?total = "length (filter (\<lambda>h. ?hp h < parts arguments \<and> may_contain rd (ibfs (?hp h)) h b) ?mins)"
  have t_le: "?t p \<le> length ?mins" for p
    by (rule order_trans [OF length_filter_le]) (rule length_filter_le)
  have tm: "unat (bulk_count rd (ibfs p) (filtered_minimiser arguments p seq) ! b) = ?t p" for p
  proof -
    have "unat (bulk_count rd (ibfs p) (filtered_minimiser arguments p seq) ! b)
            = min 65535 (?t p)"
      using ibfs b by (simp add: unat_bulk_count filtered_minimiser_def)
    moreover have "?t p < 65536"
      by (rule le_less_trans [OF t_le]) (use m in simp)
    ultimately show ?thesis by simp
  qed
  have total: "sum_list (map ?t [0..<parts arguments]) = ?total"
    by (rule sum_filter_partition)
  have small: "?total < 65536"
    by (rule le_less_trans [OF length_filter_le]) (use m in simp)
  have "unat (partition_counts rd arguments ibfs seq ! b) =
          (unat (replicate (bin_count (ibfs 0)) (0 :: u16) ! b)
           + sum_list (map (\<lambda>p. unat (bulk_count rd (ibfs p)
                                        (filtered_minimiser arguments p seq) ! b))
                        [0..<parts arguments])) mod 65536"
    unfolding partition_counts_def
    using ibfs b by (intro fold_add_nth) (simp_all add: length_bulk_count)
  also have "\<dots> = sum_list (map ?t [0..<parts arguments]) mod 65536"
    using ibfs b by (simp add: tm)
  also have "\<dots> = ?total"
    using small by (simp only: total mod_less)
  finally show ?thesis .
qed

lemma unat_flat_count:
  assumes "wf_ibf x" "b < bin_count x" "length hs < 2 ^ 16"
  shows "unat (bulk_count rd x hs ! b) = length (filter (\<lambda>h. may_contain rd x h b) hs)"
proof -
  have "length (filter (\<lambda>h. may_contain rd x h b) hs) < 65536"
    by (rule le_less_trans [OF length_filter_le]) (use assms(3) in simp)
  then show ?thesis
    using assms(1,2) by (simp add: unat_bulk_count)
qed

lemma bin_hashes_partition_subset:
  "set (bin_hashes arguments (Some hp) p k) \<subseteq> set (bin_hashes arguments None q k)"
  by (auto simp: bin_hashes_def)

lemma may_contain_partition_flat:
  assumes s1: "schedule (length (bin_path arguments)) order1"
    and s2: "schedule (length (bin_path arguments)) order2"
    and n: "0 < ibf_bin_size arguments"
    and b: "b < round_up_64 (length (bin_path arguments))"
    and c: "may_contain rd (construct rd order1 arguments (Some hp) p) h b"
  shows "may_contain rd (construct rd order2 arguments None q) h b"
proof -
  let ?x = "construct rd order1 arguments (Some hp) p"
  let ?y = "construct rd order2 arguments None q"
  have off: "bit_offset rd ?x i h b = bit_offset rd ?y i h b" for i
    by (rule bit_offset_cong) (simp_all add: construct_dims [OF s1] construct_dims [OF s2])
  have sub: "set_bits ?x \<subseteq> set_bits ?y"
    unfolding set_bits_construct [OF s1] set_bits_construct [OF s2]
    using bin_hashes_partition_subset [of arguments hp p _ q] by blast
  have "\<forall>i < hash_function_count ?x. bit_offset rd ?x i h b \<in> set_bits ?x"
    using c n b by (subst (asm) may_contain_iff) (simp_all add: construct_dims [OF s1])
  then have "\<forall>i < hash_function_count ?y. bit_offset rd ?y i h b \<in> set_bits ?y"
    using sub off by (auto simp: construct_dims [OF s1] construct_dims [OF s2])
  then show ?thesis
    using n b by (subst may_contain_iff) (simp_all add: construct_dims [OF s2])
qed


lemma unat_partition_counts_total:
  assumes ibfs: "\<forall>p. wf_ibf (ibfs p) \<and> bin_count (ibfs p) = n"
    and b: "b < n"
    and small: "length (filter (\<lambda>h. cfg_hash_partition arguments h < parts arguments
                                \<and> may_contain rd (ibfs (cfg_hash_partition arguments h)) h b)
                     (hash_adaptor arguments seq)) < 65535"
  shows "unat (partition_counts rd arguments ibfs seq ! b) =
           length (filter (\<lambda>h. cfg_hash_partition arguments h < parts arguments
                                \<and> may_contain rd (ibfs (cfg_hash_partition arguments h)) h b)
                     (hash_adaptor arguments seq))"
proof -
  let ?mins = "hash_adaptor arguments seq"
  let ?hp = "cfg_hash_partition arguments"
  let ?t = "\<lambda>p. length (filter (\<lambda>h. may_contain rd (ibfs p) h b) (filter (\<lambda>h. ?hp h = p) ?mins))"
  let ?total = "length (filter (\<lambda>h. ?hp h < parts arguments \<and> may_contain rd (ibfs (?hp h)) h b) ?mins)"
  have total: "sum_list (map ?t [0..<parts arguments]) = ?total"
    by (rule sum_filter_partition)
  have t_le: "?t p \<le> ?total" if "p < parts arguments" for p
  proof -
    have "?t p \<in> set (map ?t [0..<parts arguments])"
      using that by (simp only: set_map set_upt) (rule imageI, simp)
    then have "?t p \<le> sum_list (map ?t [0..<parts arguments])"
      by (intro member_le_sum_list) simp_all
    then show ?thesis by (simp only: total)
  qed
  have tm: "unat (bulk_count rd (ibfs p) (filtered_minimiser arguments p seq) ! b) = ?t p"
    if "p < parts arguments" for p
  proof -
    have "unat (bulk_count rd (ibfs p) (filtered_minimiser arguments p seq) ! b)
            = min 65535 (?t p)"
      using ibfs b by (simp add: unat_bulk_count filtered_minimiser_def)
    moreover have "?t p < 65535"
      by (rule le_less_trans [OF t_le [OF that] small])
    ultimately show ?thesis by simp
  qed
  have "unat (partition_counts rd arguments ibfs seq ! b) =
          (unat (replicate (bin_count (ibfs 0)) (0 :: u16) ! b)
           + sum_list (map (\<lambda>p. unat (bulk_count rd (ibfs p)
                                        (filtered_minimiser arguments p seq) ! b))
                        [0..<parts arguments])) mod 65536"
    unfolding partition_counts_def
    using ibfs b by (intro fold_add_nth) (simp_all add: length_bulk_count)
  also have "map (\<lambda>p. unat (bulk_count rd (ibfs p) (filtered_minimiser arguments p seq) ! b))
               [0..<parts arguments] = map ?t [0..<parts arguments]"
    by (rule map_cong [OF refl]) (simp add: tm)
  also have "(unat (replicate (bin_count (ibfs 0)) (0 :: u16) ! b)
               + sum_list (map ?t [0..<parts arguments])) mod 65536
             = sum_list (map ?t [0..<parts arguments]) mod 65536"
    using ibfs b by simp
  also have "\<dots> = ?total"
    using small by (simp only: total) simp
  finally show ?thesis .
qed

lemma partition_counts_within_flat:
  assumes s: "schedule (length (bin_path build_args)) order"
    and ss: "\<forall>p. schedule (length (bin_path build_args)) (orders p)"
    and n: "0 < ibf_bin_size build_args"
    and b: "b < round_up_64 (length (bin_path build_args))"
  shows "unat (partition_counts rd arguments
                 (\<lambda>p. construct rd (orders p) build_args (Some (cfg_hash_partition arguments)) p)
                 seq ! b)
         \<le> unat (bulk_count rd (construct rd order build_args None 0)
                    (hash_adaptor arguments seq) ! b)"
proof -
  let ?ibfs = "\<lambda>p. construct rd (orders p) build_args (Some (cfg_hash_partition arguments)) p"
  let ?flat = "construct rd order build_args None 0"
  let ?hp = "cfg_hash_partition arguments"
  let ?mins = "hash_adaptor arguments seq"
  let ?T = "length (filter (\<lambda>h. may_contain rd ?flat h b) ?mins)"
  let ?total = "length (filter (\<lambda>h. ?hp h < parts arguments \<and> may_contain rd (?ibfs (?hp h)) h b)
                    ?mins)"
  have wf: "\<forall>p. wf_ibf (?ibfs p) \<and> bin_count (?ibfs p) = round_up_64 (length (bin_path build_args))"
    using ss n by (simp add: wf_construct construct_dims)
  have flat: "unat (bulk_count rd ?flat ?mins ! b) = min 65535 ?T"
    using b n by (subst unat_bulk_count [OF wf_construct [OF s n]])
                 (simp_all add: construct_dims [OF s])
  have imp: "?hp h < parts arguments \<and> may_contain rd (?ibfs (?hp h)) h b
               \<Longrightarrow> may_contain rd ?flat h b" for h
    using may_contain_partition_flat [OF _ s n b] ss by blast
  have le: "?total \<le> ?T"
  proof -
    have "filter (\<lambda>h. ?hp h < parts arguments \<and> may_contain rd (?ibfs (?hp h)) h b) ?mins
          = filter (\<lambda>h. ?hp h < parts arguments \<and> may_contain rd (?ibfs (?hp h)) h b)
              (filter (\<lambda>h. may_contain rd ?flat h b) ?mins)"
      using imp by (auto simp: filter_filter intro!: filter_cong)
    then show ?thesis
      by (simp only: length_filter_le)
  qed
  show ?thesis
  proof (cases "?T < 65535")
    case True
    then have small: "?total < 65535"
      using le by simp
    have "unat (partition_counts rd arguments ?ibfs seq ! b) = ?total"
      by (rule unat_partition_counts_total [OF wf b small])
    also have "?total \<le> ?T"
      by (rule le)
    also have "?T = min 65535 ?T"
      using True by simp
    also have "\<dots> = unat (bulk_count rd ?flat ?mins ! b)"
      by (rule flat [symmetric])
    finally show ?thesis .
  next
    case False
    have "unat (partition_counts rd arguments ?ibfs seq ! b) < 65536"
      using unsigned_less [of "partition_counts rd arguments ?ibfs seq ! b", where ?'a = nat]
      by simp
    then have "unat (partition_counts rd arguments ?ibfs seq ! b) \<le> 65535"
      by simp
    also have "65535 = min 65535 ?T"
      using False by simp
    also have "\<dots> = unat (bulk_count rd ?flat ?mins ! b)"
      by (rule flat [symmetric])
    finally show ?thesis .
  qed
qed

text \<open>
  Claim C1, as stated, fails (the filters are those of the specification's IBF core): with
  two bins, two partitions by parity, and the flat filter and the partition filters built
  from the same arguments, the hash 1 of record \<open>r1\<close> is a false positive of the flat
  filter in bin 0 (it shares its rows with the inserted hash 0 of the other partition),
  but not of the filter of its own partition: the flat search reports bin 0 and the
  partitioned search, run by one thread, reports nothing.
\<close>

theorem partition_equivalence_counterexample:
  "worker example_rd example_search_arguments (Ibf example_flat) [(''r1'', [C])] 0 []
     = [Result (''r1'' @ [tab] @ ''0'' @ [newline])]
   \<and> partitioned_chunk example_rd example_search_arguments (\<lambda>part. one_thread 1)
        (example_partition 0) [(''r1'', [C])] []
     = Inr [Result (''r1'' @ [tab, newline])]
   \<and> hit_bins (bulk_count example_rd example_flat (hash_adaptor example_search_arguments [C]))
        (thresholder_get example_search_arguments 1) = [0]
   \<and> hit_bins (partition_counts example_rd example_search_arguments example_partition [C])
        (thresholder_get example_search_arguments 1) = []"
  by code_simp

lemma partition_counts_eq_flat:
  assumes s: "schedule (length (bin_path build_args)) order"
    and ss: "\<forall>p. schedule (length (bin_path build_args)) (orders p)"
    and n: "0 < ibf_bin_size build_args"
    and m: "length (hash_adaptor arguments seq) < 2 ^ 16"
    and exact: "\<forall>h \<in> set (hash_adaptor arguments seq).
         cfg_hash_partition arguments h < parts arguments
       \<and> (\<forall>b < round_up_64 (length (bin_path build_args)).
            may_contain rd (construct rd order build_args None 0) h b \<longrightarrow>
              b < length (bin_path build_args)
            \<and> h \<in> set (reader build_args (bin_path build_args ! b)))"
  shows "partition_counts rd arguments
           (\<lambda>p. construct rd (orders p) build_args (Some (cfg_hash_partition arguments)) p) seq
         = bulk_count rd (construct rd order build_args None 0) (hash_adaptor arguments seq)"
proof (rule nth_equalityI)
  let ?ibfs = "\<lambda>p. construct rd (orders p) build_args (Some (cfg_hash_partition arguments)) p"
  let ?flat = "construct rd order build_args None 0"
  let ?hp = "cfg_hash_partition arguments"
  let ?B = "round_up_64 (length (bin_path build_args))"
  have wf: "\<forall>p. wf_ibf (?ibfs p) \<and> bin_count (?ibfs p) = ?B"
    using ss n by (simp add: wf_construct construct_dims)
  have len: "length (partition_counts rd arguments ?ibfs seq) = ?B"
    by (rule length_partition_counts [OF wf])
  show "length (partition_counts rd arguments ?ibfs seq)
          = length (bulk_count rd ?flat (hash_adaptor arguments seq))"
    by (simp add: len length_bulk_count [OF wf_construct [OF s n]] construct_dims [OF s])
  fix b assume "b < length (partition_counts rd arguments ?ibfs seq)"
  then have b: "b < ?B" by (simp only: len)
  have same: "(?hp h < parts arguments \<and> may_contain rd (?ibfs (?hp h)) h b)
                = may_contain rd ?flat h b"
    if h: "h \<in> set (hash_adaptor arguments seq)" for h
  proof
    assume "?hp h < parts arguments \<and> may_contain rd (?ibfs (?hp h)) h b"
    then show "may_contain rd ?flat h b"
      using may_contain_partition_flat [OF _ s n b] ss by blast
  next
    assume c: "may_contain rd ?flat h b"
    from exact h have p: "?hp h < parts arguments" by blast
    from exact h b c have k: "b < length (bin_path build_args)"
      and r: "h \<in> set (reader build_args (bin_path build_args ! b))"
      by blast+
    from r have "h \<in> set (bin_hashes build_args (Some ?hp) (?hp h) b)"
      by (simp add: bin_hashes_def)
    then have "may_contain rd (?ibfs (?hp h)) h b"
      using construct_may_contain [of build_args "orders (?hp h)" b h "Some ?hp" "?hp h" rd]
        ss n k by blast
    with p show "?hp h < parts arguments \<and> may_contain rd (?ibfs (?hp h)) h b" ..
  qed
  have "unat (partition_counts rd arguments ?ibfs seq ! b) =
          length (filter (\<lambda>h. ?hp h < parts arguments \<and> may_contain rd (?ibfs (?hp h)) h b)
                    (hash_adaptor arguments seq))"
    by (rule unat_partition_counts [OF wf b m])
  also have "\<dots> = length (filter (\<lambda>h. may_contain rd ?flat h b) (hash_adaptor arguments seq))"
    using same by (intro arg_cong [of _ _ length] filter_cong refl) blast
  also have "\<dots> = unat (bulk_count rd ?flat (hash_adaptor arguments seq) ! b)"
    using b n by (subst unat_flat_count [OF wf_construct [OF s n] _ m])
                 (simp_all add: construct_dims [OF s])
  finally show "partition_counts rd arguments ?ibfs seq ! b
                  = bulk_count rd ?flat (hash_adaptor arguments seq) ! b"
    by (simp add: word_unat_eq_iff)
qed

lemma flat_chunk_lines:
  "do_parallel [0..<length records] (worker rd arguments (Ibf flat) records) out =
     out @ map (\<lambda>r. Result (result_line (fst r)
                  (hit_bins (bulk_count rd flat (hash_adaptor arguments (snd r)))
                     (thresholder_get arguments (length (hash_adaptor arguments (snd r)))))))
           records"
proof -
  have "do_parallel [0..<length records] (worker rd arguments (Ibf flat) records) out =
          out @ map (\<lambda>i. record_line rd arguments (Ibf flat) (records ! i)) [0..<length records]"
    by (rule do_parallel_worker)
  also have "\<dots> = out @ map (record_line rd arguments (Ibf flat)) records"
    by (simp only: map_upt_nth)
  finally show ?thesis
    by (simp add: record_line_def reported_bins_def Let_def)
qed

text \<open>
  Claim C1, amended. Let the flat filter and the filters of the \<open>P \<ge> 2\<close> partitions be
  built by \<^verbatim>\<open>index_factory::construct\<close> from the same build arguments (same bins, rows and
  hash functions), the partitions with the hash partition function of the query, let the
  index file of partition \<open>p\<close> hold the filter of \<open>p\<close>, and let one thread run the loops of
  the partitioned search. Then:
  \<^item> the bits set in the filter of partition \<open>p\<close> are exactly the bits of the hashes \<open>h\<close>
    of the bins with \<open>hash_partition h = p\<close>: a hash is inserted into the partition it
    hashes to and into no other;
  \<^item> the partitioned search writes, for every record of a chunk, the line of the bins
    whose accumulated count reaches the threshold, where the accumulator adds, for every
    partition, the counts of the minimisers of that partition in the filter of that
    partition; the flat search writes the line of the bins whose count in the flat filter
    reaches the threshold;
  \<^item> for every sequence and every bin the accumulated count is at most the flat count, so
    every bin reported by the partitioned search is reported by the flat search;
  \<^item> if every record of the chunk has fewer than \<open>2 ^ 16\<close> minimisers, every minimiser has
    a partition below \<open>P\<close> and the flat filter answers no false positive for it (it may
    contain the minimiser in a bin only if the files of that bin produced it), the
    partitioned search writes the lines of the flat search.
\<close>

theorem partitioned_search_within_flat:
  assumes "schedule (length (bin_path build_args)) order"
    and "\<forall>p. schedule (length (bin_path build_args)) (orders p)"
    and "0 < ibf_bin_size build_args"
    and "flat = construct rd order build_args None 0"
    and "\<forall>p. ibfs p = construct rd (orders p) build_args (Some (cfg_hash_partition arguments)) p"
    and "2 \<le> parts arguments"
    and "\<forall>p < parts arguments. load_index arguments p = Inr (ibfs p)"
    and "\<forall>p < parts arguments. omp p = one_thread (length records)"
  shows "(\<forall>p. set_bits (ibfs p) =
            {pos. pos < ibf_bin_size build_args * round_up_64 (length (bin_path build_args)) \<and>
               (\<exists>k < length (bin_path build_args).
                  \<exists>h \<in> set (reader build_args (bin_path build_args ! k)).
                    cfg_hash_partition arguments h = p \<and>
                    (\<exists>i < hash build_args.
                       pos = (rd i h mod ibf_bin_size build_args)
                               * round_up_64 (length (bin_path build_args)) + k))})
       \<and> partitioned_chunk rd arguments omp (ibfs 0) records out =
           Inr (out @ map (\<lambda>r. Result (result_line (fst r)
                    (hit_bins (partition_counts rd arguments ibfs (snd r))
                       (thresholder_get arguments (length (hash_adaptor arguments (snd r)))))))
                  records)
       \<and> do_parallel [0..<length records] (worker rd arguments (Ibf flat) records) out =
           out @ map (\<lambda>r. Result (result_line (fst r)
                    (hit_bins (bulk_count rd flat (hash_adaptor arguments (snd r)))
                       (thresholder_get arguments (length (hash_adaptor arguments (snd r)))))))
                  records
       \<and> (\<forall>seq. \<forall>b < round_up_64 (length (bin_path build_args)).
            unat (partition_counts rd arguments ibfs seq ! b)
              \<le> unat (bulk_count rd flat (hash_adaptor arguments seq) ! b))
       \<and> (\<forall>seq threshold.
            set (hit_bins (partition_counts rd arguments ibfs seq) threshold)
              \<subseteq> set (hit_bins (bulk_count rd flat (hash_adaptor arguments seq)) threshold))
       \<and> ((\<forall>r \<in> set records.
              length (hash_adaptor arguments (snd r)) < 2 ^ 16
            \<and> (\<forall>h \<in> set (hash_adaptor arguments (snd r)).
                 cfg_hash_partition arguments h < parts arguments
               \<and> (\<forall>b < round_up_64 (length (bin_path build_args)).
                    may_contain rd flat h b \<longrightarrow>
                      b < length (bin_path build_args)
                    \<and> h \<in> set (reader build_args (bin_path build_args ! b)))))
           \<longrightarrow> partitioned_chunk rd arguments omp (ibfs 0) records out =
                 Inr (do_parallel [0..<length records] (worker rd arguments (Ibf flat) records) out))"
proof -
  let ?B = "round_up_64 (length (bin_path build_args))"
  let ?hp = "cfg_hash_partition arguments"
  have ibfs: "ibfs = (\<lambda>p. construct rd (orders p) build_args (Some ?hp) p)"
    using assms(5) by (intro ext) simp
  have bits: "set_bits (ibfs p) =
            {pos. pos < ibf_bin_size build_args * ?B \<and>
               (\<exists>k < length (bin_path build_args).
                  \<exists>h \<in> set (reader build_args (bin_path build_args ! k)).
                    ?hp h = p \<and>
                    (\<exists>i < hash build_args.
                       pos = (rd i h mod ibf_bin_size build_args) * ?B + k))}" for p
  proof -
    have "schedule (length (bin_path build_args)) (orders p)"
      using assms(2) by simp
    from set_bits_construct [OF this, of rd "Some ?hp" p]
    show ?thesis
      unfolding ibfs bin_hashes_def by (simp only: option.case set_filter) blast
  qed
  have chunk: "partitioned_chunk rd arguments omp (ibfs 0) records out =
           Inr (out @ map (\<lambda>r. Result (result_line (fst r)
                    (hit_bins (partition_counts rd arguments ibfs (snd r))
                       (thresholder_get arguments (length (hash_adaptor arguments (snd r)))))))
                  records)"
    by (rule partitioned_chunk_eq [OF assms(6,7,8)])
  have flat_lines: "do_parallel [0..<length records] (worker rd arguments (Ibf flat) records) out =
           out @ map (\<lambda>r. Result (result_line (fst r)
                    (hit_bins (bulk_count rd flat (hash_adaptor arguments (snd r)))
                       (thresholder_get arguments (length (hash_adaptor arguments (snd r)))))))
                  records"
    by (rule flat_chunk_lines)
  have le: "unat (partition_counts rd arguments ibfs seq ! b)
              \<le> unat (bulk_count rd flat (hash_adaptor arguments seq) ! b)"
    if "b < ?B" for seq b
    unfolding ibfs assms(4)
    by (rule partition_counts_within_flat [OF assms(1,2,3) that])
  have wf: "\<forall>p. wf_ibf (ibfs p) \<and> bin_count (ibfs p) = ?B"
    unfolding ibfs using assms(2,3) by (simp add: wf_construct construct_dims)
  have len1: "length (partition_counts rd arguments ibfs seq) = ?B" for seq
    by (rule length_partition_counts [OF wf])
  have len2: "length (bulk_count rd flat (hash_adaptor arguments seq)) = ?B" for seq
    unfolding assms(4)
    by (simp add: length_bulk_count [OF wf_construct [OF assms(1,3)]] construct_dims [OF assms(1)])
  have sub: "set (hit_bins (partition_counts rd arguments ibfs seq) threshold)
               \<subseteq> set (hit_bins (bulk_count rd flat (hash_adaptor arguments seq)) threshold)"
    for seq threshold
    unfolding set_hit_bins len1 len2 using le [of _ seq] by (auto intro: order_trans)
  have same: "partitioned_chunk rd arguments omp (ibfs 0) records out =
                 Inr (do_parallel [0..<length records] (worker rd arguments (Ibf flat) records) out)"
    if exact: "\<forall>r \<in> set records.
              length (hash_adaptor arguments (snd r)) < 2 ^ 16
            \<and> (\<forall>h \<in> set (hash_adaptor arguments (snd r)).
                 ?hp h < parts arguments
               \<and> (\<forall>b < ?B. may_contain rd flat h b \<longrightarrow>
                      b < length (bin_path build_args)
                    \<and> h \<in> set (reader build_args (bin_path build_args ! b))))"
  proof -
    have "partition_counts rd arguments ibfs (snd r)
            = bulk_count rd flat (hash_adaptor arguments (snd r))"
      if r: "r \<in> set records" for r
    proof -
      from exact r have m: "length (hash_adaptor arguments (snd r)) < 2 ^ 16"
        by blast
      from exact r have e: "\<forall>h \<in> set (hash_adaptor arguments (snd r)).
                 ?hp h < parts arguments
               \<and> (\<forall>b < ?B. may_contain rd (construct rd order build_args None 0) h b \<longrightarrow>
                      b < length (bin_path build_args)
                    \<and> h \<in> set (reader build_args (bin_path build_args ! b)))"
        unfolding assms(4) by blast
      show ?thesis
        unfolding ibfs assms(4)
        by (rule partition_counts_eq_flat [OF assms(1,2,3) m e])
    qed
    then have "map (\<lambda>r. Result (result_line (fst r)
                    (hit_bins (partition_counts rd arguments ibfs (snd r))
                       (thresholder_get arguments (length (hash_adaptor arguments (snd r)))))))
                  records
             = map (\<lambda>r. Result (result_line (fst r)
                    (hit_bins (bulk_count rd flat (hash_adaptor arguments (snd r)))
                       (thresholder_get arguments (length (hash_adaptor arguments (snd r)))))))
                  records"
      by (intro map_cong refl) simp
    then show ?thesis
      by (simp only: chunk flat_lines)
  qed
  show ?thesis
    using bits chunk flat_lines le sub same by (intro conjI allI impI) blast+
qed

lemma example_loads:
  "2 \<le> parts example_search_arguments"
  "\<forall>p < parts example_search_arguments.
     load_index example_search_arguments p = Inr (example_partition p)"
  by (simp_all add: example_search_arguments_def)

theorem partitioned_search_within_flat_witness:
  "schedule (length (bin_path example_build_arguments)) [0, 1]
   \<and> 0 < ibf_bin_size example_build_arguments
   \<and> example_flat = construct example_rd [0, 1] example_build_arguments None 0
   \<and> (\<forall>p. example_partition p =
            construct example_rd [0, 1] example_build_arguments
              (Some (cfg_hash_partition example_search_arguments)) p)
   \<and> 2 \<le> parts example_search_arguments
   \<and> load_index example_search_arguments 0 = Inr (example_partition 0)
   \<and> load_index example_search_arguments 1 = Inr (example_partition 1)
   \<and> list_all
        (\<lambda>r. length (hash_adaptor example_search_arguments (snd r)) < 2 ^ 16
           \<and> list_all
                (\<lambda>h. cfg_hash_partition example_search_arguments h < parts example_search_arguments
                   \<and> list_all
                        (\<lambda>b. may_contain example_rd example_flat h b \<longrightarrow>
                               b < length (bin_path example_build_arguments)
                             \<and> h \<in> set (reader example_build_arguments
                                           (bin_path example_build_arguments ! b)))
                        [0..<round_up_64 (length (bin_path example_build_arguments))])
                (hash_adaptor example_search_arguments (snd r)))
        [(''r2'', [G, A])]
   \<and> partitioned_chunk example_rd example_search_arguments (\<lambda>part. one_thread 1)
        (example_partition 0) [(''r2'', [G, A])] []
       = Inr (do_parallel [0..<length [(''r2'', [G, A])]]
                (worker example_rd example_search_arguments (Ibf example_flat) [(''r2'', [G, A])])
                [])
   \<and> do_parallel [0..<length [(''r2'', [G, A])]]
        (worker example_rd example_search_arguments (Ibf example_flat) [(''r2'', [G, A])]) []
       = [Result (''r2'' @ [tab] @ ''0,1'' @ [newline])]
   \<and> set (hit_bins (partition_counts example_rd example_search_arguments example_partition [C]) 1)
       \<subseteq> set (hit_bins (bulk_count example_rd example_flat
                  (hash_adaptor example_search_arguments [C])) 1)"
proof -
  let ?records = "[(''r2'', [G, A])]"
  have s: "schedule (length (bin_path example_build_arguments)) [0, 1]"
    by (simp add: schedule_def example_build_arguments_def)
  have ss: "\<forall>p. schedule (length (bin_path example_build_arguments)) ((\<lambda>p. [0, 1]) p)"
    using s by simp
  have n: "0 < ibf_bin_size example_build_arguments"
    by (simp add: example_build_arguments_def)
  have flat: "example_flat = construct example_rd [0, 1] example_build_arguments None 0"
    by (simp add: example_flat_def)
  have part: "\<forall>p. example_partition p =
            construct example_rd ((\<lambda>p. [0, 1]) p) example_build_arguments
              (Some (cfg_hash_partition example_search_arguments)) p"
    by (simp add: example_partition_def example_search_arguments_def)
  have omp: "\<forall>p < parts example_search_arguments.
               (\<lambda>part. one_thread 1) p = one_thread (length ?records)"
    by simp
  have x: "list_all
        (\<lambda>r. length (hash_adaptor example_search_arguments (snd r)) < 2 ^ 16
           \<and> list_all
                (\<lambda>h. cfg_hash_partition example_search_arguments h < parts example_search_arguments
                   \<and> list_all
                        (\<lambda>b. may_contain example_rd example_flat h b \<longrightarrow>
                               b < length (bin_path example_build_arguments)
                             \<and> h \<in> set (reader example_build_arguments
                                           (bin_path example_build_arguments ! b)))
                        [0..<round_up_64 (length (bin_path example_build_arguments))])
                (hash_adaptor example_search_arguments (snd r)))
        ?records"
  proof -
    have "length (hash_adaptor example_search_arguments [G, A]) < 2 ^ 16"
      by (simp add: example_search_arguments_def)
    moreover have "list_all
                (\<lambda>h. cfg_hash_partition example_search_arguments h < parts example_search_arguments
                   \<and> list_all
                        (\<lambda>b. may_contain example_rd example_flat h b \<longrightarrow>
                               b < length (bin_path example_build_arguments)
                             \<and> h \<in> set (reader example_build_arguments
                                           (bin_path example_build_arguments ! b)))
                        [0..<round_up_64 (length (bin_path example_build_arguments))])
                (hash_adaptor example_search_arguments [G, A])"
      by code_simp
    ultimately show ?thesis by simp
  qed
  then have exact: "\<forall>r \<in> set ?records.
        length (hash_adaptor example_search_arguments (snd r)) < 2 ^ 16
      \<and> (\<forall>h \<in> set (hash_adaptor example_search_arguments (snd r)).
           cfg_hash_partition example_search_arguments h < parts example_search_arguments
         \<and> (\<forall>b < round_up_64 (length (bin_path example_build_arguments)).
              may_contain example_rd example_flat h b \<longrightarrow>
                b < length (bin_path example_build_arguments)
              \<and> h \<in> set (reader example_build_arguments (bin_path example_build_arguments ! b))))"
    by (simp add: list_all_iff)
  note within = partitioned_search_within_flat [OF s ss n flat part example_loads omp,
      where out = "[]"]
  have e: "partitioned_chunk example_rd example_search_arguments (\<lambda>part. one_thread 1)
        (example_partition 0) ?records []
       = Inr (do_parallel [0..<length ?records]
                (worker example_rd example_search_arguments (Ibf example_flat) ?records) [])"
    by (rule within [THEN conjunct2, THEN conjunct2, THEN conjunct2, THEN conjunct2,
                     THEN conjunct2, THEN mp, OF exact])
  have w: "do_parallel [0..<length ?records]
        (worker example_rd example_search_arguments (Ibf example_flat) ?records) []
       = [Result (''r2'' @ [tab] @ ''0,1'' @ [newline])]"
    by code_simp
  have u: "set (hit_bins (partition_counts example_rd example_search_arguments example_partition [C]) 1)
       \<subseteq> set (hit_bins (bulk_count example_rd example_flat
                  (hash_adaptor example_search_arguments [C])) 1)"
    by (rule within [THEN conjunct2, THEN conjunct2, THEN conjunct2, THEN conjunct2,
                     THEN conjunct1, THEN spec, THEN spec])
  have l0: "load_index example_search_arguments 0 = Inr (example_partition 0)"
    and l1: "load_index example_search_arguments 1 = Inr (example_partition 1)"
    by (simp_all add: example_search_arguments_def)
  have part': "\<forall>p. example_partition p =
            construct example_rd [0, 1] example_build_arguments
              (Some (cfg_hash_partition example_search_arguments)) p"
    using part by simp
  show ?thesis
    using s n flat part' example_loads(1) l0 l1 x e w u by (intro conjI)
qed


end
